theory Spec2Isabelle
  imports Main "HOL-Library.Sublist"
begin

section \<open>JavaScript values\<close>

text \<open>
  The form component keeps, per schema key, a value that is a boolean, a number, a string or
  \<open>null\<close>; a descriptor's \<open>default\<close> may also be missing, which JavaScript reads as
  \<open>undefined\<close>. \<open>JNum n\<close> stands for the JavaScript number of the integer value \<open>n\<close>
  where \<open>n\<close> is a safe integer, of magnitude below \<open>2\<^sup>5\<^sup>3\<close>: such a number is exact and
  its text is its decimal numeral. Larger integers (rounded, and printed with an exponent from
  \<open>10\<^sup>2\<^sup>1\<close> on), fractions, \<open>NaN\<close> and the infinities are outside the model. Strings are
  lists of 8-bit characters.
\<close>

datatype jsval = JUndefined | JNull | JBool bool | JNum int | JStr string

fun show_nat :: "nat \<Rightarrow> string" where
  "show_nat n =
     (if n < 10 then [''0123456789'' ! n]
      else show_nat (n div 10) @ [''0123456789'' ! (n mod 10)])"

declare show_nat.simps [simp del]

definition show_int :: "int \<Rightarrow> string" where
  "show_int i = (if i < 0 then CHR ''-'' # show_nat (nat (- i)) else show_nat (nat i))"

text \<open>\<open>val ? 1 : 0\<close> tests JavaScript truthiness.\<close>

fun truthy :: "jsval \<Rightarrow> bool" where
  "truthy JUndefined = False"
| "truthy JNull = False"
| "truthy (JBool b) = b"
| "truthy (JNum n) = (n \<noteq> 0)"
| "truthy (JStr s) = (s \<noteq> [])"

text \<open>\<open>String(val)\<close>, which is also what a template literal \<open>${val}\<close> inserts.\<close>

fun String :: "jsval \<Rightarrow> string" where
  "String JUndefined = ''undefined''"
| "String JNull = ''null''"
| "String (JBool b) = (if b then ''true'' else ''false'')"
| "String (JNum n) = show_int n"
| "String (JStr s) = s"

section \<open>Schema, properties and the value mapping\<close>

record descriptor =
  type :: string
  default :: jsval
  description :: "string option"

text \<open>
  A JavaScript object is an association list of its own properties in the order of
  \<open>Object.keys\<close>. The schema is a plain object, so \<open>props.schema[k]\<close> reads through
  the prototype chain: it is the own property \<open>k\<close> when there is one, a member of
  \<open>Object.prototype\<close> when \<open>k\<close> names one, and \<open>undefined\<close> otherwise. The
  inherited members are functions, and \<open>__proto__\<close> is the prototype object: all of them are
  truthy, and their properties \<open>type\<close> and \<open>default\<close> are \<open>undefined\<close>.
\<close>

definition object_prototype_names :: "string list" where
  "object_prototype_names =
     [''constructor'', ''hasOwnProperty'', ''isPrototypeOf'', ''propertyIsEnumerable'',
      ''toLocaleString'', ''toString'', ''valueOf'', ''__proto__'',
      ''__defineGetter__'', ''__defineSetter__'', ''__lookupGetter__'', ''__lookupSetter__'']"

datatype schema_entry = Own descriptor | Inherited | Missing

record props =
  schema :: "(string \<times> descriptor) list"
  variantName :: string

type_synonym valuemap = "(string \<times> jsval) list"

definition keys :: "(string \<times> 'a) list \<Rightarrow> string list" where
  "keys obj = map fst obj"

text \<open>\<open>props.schema[k]\<close>\<close>

definition schema_get :: "props \<Rightarrow> string \<Rightarrow> schema_entry" where
  "schema_get p k =
     (case map_of (schema p) k of
        Some e \<Rightarrow> Own e
      | None \<Rightarrow> if k \<in> set object_prototype_names then Inherited else Missing)"

text \<open>\<open>v[k]\<close>, which the generator reads for the own keys of \<open>v\<close> only.\<close>

definition get_value :: "valuemap \<Rightarrow> string \<Rightarrow> jsval" where
  "get_value v k = (case map_of v k of None \<Rightarrow> JUndefined | Some x \<Rightarrow> x)"

section \<open>Character classes and global replacement\<close>

text \<open>
  The line terminators of a regular expression are line feed and carriage return; the two
  others, U+2028 and U+2029, are not 8-bit characters. \<open>\d\<close> is \<open>[0-9]\<close> and \<open>\w\<close> is
  \<open>[A-Za-z0-9_]\<close>.
\<close>

definition line_terminator :: "char \<Rightarrow> bool" where
  "line_terminator c = (c = CHR 0x0A \<or> c = CHR 0x0D)"

definition is_digit :: "char \<Rightarrow> bool" where
  "is_digit c = (c \<in> set ''0123456789'')"

definition is_ident_start :: "char \<Rightarrow> bool" where
  "is_ident_start c = (c \<in> set ''abcdefghijklmnopqrstuvwxyzABCDEFGHIJKLMNOPQRSTUVWXYZ_'')"

definition is_word :: "char \<Rightarrow> bool" where
  "is_word c = (is_ident_start c \<or> is_digit c)"

text \<open>\<open>s.replace(/c/g, r)\<close> for a one-character pattern \<open>c\<close>.\<close>

definition replace_char :: "char \<Rightarrow> string \<Rightarrow> string \<Rightarrow> string" where
  "replace_char c r s = concat (map (\<lambda>x. if x = c then r else [x]) s)"

section \<open>isValidCIdentifier and escapeHtml\<close>

text \<open>\<open>/^[a-zA-Z_][a-zA-Z0-9_]*$/.test(name)\<close>\<close>

fun isValidCIdentifier :: "string \<Rightarrow> bool" where
  "isValidCIdentifier [] = False"
| "isValidCIdentifier (c # cs) = (is_ident_start c \<and> list_all is_word cs)"

definition escapeHtml :: "string \<Rightarrow> string" where
  \<open>escapeHtml text =
     replace_char (CHR 0x27) ''&#39;''
       (replace_char (CHR ''"'') ''&quot;''
         (replace_char (CHR ''>'') ''&gt;''
           (replace_char (CHR ''<'') ''&lt;''
             (replace_char (CHR ''&'') ''&amp;'' text))))\<close>

section \<open>Encoding a value as a C literal\<close>

text \<open>\<open>String(val).replace(/\\/g, '\\\\').replace(/"/g, '\\"')\<close>\<close>

definition c_escape :: "string \<Rightarrow> string" where
  \<open>c_escape s =
     replace_char (CHR ''"'') [CHR 0x5C, CHR ''"'']
       (replace_char (CHR 0x5C) [CHR 0x5C, CHR 0x5C] s)\<close>

text \<open>
  The \<open>#define\<close> line of a key. The source writes this three-way branch twice, once for the
  current value (lines 63 to 71) and once for the default (lines 86 to 93).
\<close>

definition define_line :: "string \<Rightarrow> string \<Rightarrow> jsval \<Rightarrow> string" where
  \<open>define_line k ty val =
     (if ty = ''boolean'' then ''#define '' @ k @ '' '' @ (if truthy val then ''1'' else ''0'')
      else if ty = ''string'' then ''#define '' @ k @ '' "'' @ c_escape (String val) @ ''"''
      else ''#define '' @ k @ '' '' @ String val)\<close>

section \<open>The header lines\<close>

record gen =
  lines :: "string list"
  console :: "string list"

definition push :: "string \<Rightarrow> gen \<Rightarrow> gen" where
  "push l g = g\<lparr>lines := lines g @ [l]\<rparr>"

definition console_warn :: "string \<Rightarrow> gen \<Rightarrow> gen" where
  "console_warn m g = g\<lparr>console := console g @ [m]\<rparr>"

text \<open>
  The body of the first \<open>forEach\<close>, over the keys of the value mapping. The test
  \<open>!schemaEntry\<close> holds for \<open>undefined\<close> only; the \<open>type\<close> of an inherited member is
  \<open>undefined\<close>, equal to neither \<open>'boolean'\<close> nor \<open>'string'\<close>, so that the last branch
  prints the value.
\<close>

definition variant_define :: "props \<Rightarrow> valuemap \<Rightarrow> string \<Rightarrow> gen \<Rightarrow> gen" where
  "variant_define p v k g =
     (if \<not> isValidCIdentifier k then console_warn (''Skipping invalid C identifier: '' @ k) g
      else case schema_get p k of
        Missing \<Rightarrow> console_warn (''No schema found for key: '' @ k) g
      | Own schemaEntry \<Rightarrow> push (define_line k (type schemaEntry) (get_value v k)) g
      | Inherited \<Rightarrow> push (''#define '' @ k @ '' '' @ String (get_value v k)) g)"

text \<open>
  The body of the second \<open>forEach\<close>, over the keys of the schema. The \<open>default\<close> of an
  inherited member is \<open>undefined\<close>.
\<close>

definition default_define :: "props \<Rightarrow> string \<Rightarrow> gen \<Rightarrow> gen" where
  "default_define p k g =
     (case schema_get p k of
        Missing \<Rightarrow> g
      | Inherited \<Rightarrow> g
      | Own schemaEntry \<Rightarrow>
          (let def = default schemaEntry in
           if def \<noteq> JUndefined then
             (if \<not> isValidCIdentifier k then g
              else push ''#endif''
                     (push (define_line k (type schemaEntry) def)
                       (push (''#ifndef '' @ k) g)))
           else g))"

definition variant_or_default :: "props \<Rightarrow> string" where
  "variant_or_default p = (if variantName p = [] then ''variant'' else variantName p)"

definition header_gen :: "props \<Rightarrow> valuemap \<Rightarrow> gen" where
  "header_gen p v =
     fold (default_define p) (keys (schema p))
       (push ''// Common defaults (only applied if not defined by variant)''
         (push ''''
           (fold (variant_define p v) (keys v)
             (push ''// Variant-specific defines (highest priority)''
               (push ''''
                 (push (''// Variant: '' @ escapeHtml (variant_or_default p))
                   (push ''// Auto-generated header from Config Editor''
                     (push ''#pragma once'' \<lparr>lines = [], console = []\<rparr>))))))))"

text \<open>\<open>lines.join('\n')\<close>\<close>

fun join_lines :: "string list \<Rightarrow> string" where
  "join_lines [] = []"
| "join_lines [l] = l"
| "join_lines (l # m # ls) = l @ CHR 0x0A # join_lines (m # ls)"

text \<open>The local \<open>raw\<close> of \<open>generateCHeader\<close>: the header text before highlighting.\<close>

definition raw_header :: "props \<Rightarrow> valuemap \<Rightarrow> string" where
  "raw_header p v = join_lines (lines (header_gen p v))"

section \<open>Highlighting\<close>

definition span :: "string \<Rightarrow> string \<Rightarrow> string" where
  \<open>span cls s = ''<span class="'' @ cls @ ''">'' @ s @ ''</span>''\<close>

text \<open>
  \<open>.replace(/(\/\/.*$)/gm, '<span class="comment">$1</span>')\<close>: at the leftmost \<open>//\<close> the
  greedy \<open>.*\<close> takes every character up to the next line terminator or the end of the text,
  where the multi-line \<open>$\<close> holds; the search goes on after the match.
\<close>

function comment_pass :: "string \<Rightarrow> string" where
  "comment_pass [] = []"
| "comment_pass (c # cs) =
     (if prefix ''//'' (c # cs)
      then span ''comment'' (c # takeWhile (\<lambda>x. \<not> line_terminator x) cs)
             @ comment_pass (dropWhile (\<lambda>x. \<not> line_terminator x) cs)
      else c # comment_pass cs)"
  by pat_completeness auto
termination
  by (relation "measure length") (auto simp: less_Suc_eq_le length_dropWhile_le)

text \<open>
  \<open>.replace(/(#pragma|#define|#ifndef|#endif)/gm, '<span class="keyword">$1</span>')\<close>:
  the pattern has no anchor, so it is tried at every position, the alternatives in order.
\<close>

definition keyword_tokens :: "string list" where
  "keyword_tokens = [''#pragma'', ''#define'', ''#ifndef'', ''#endif'']"

function keyword_pass :: "string \<Rightarrow> string" where
  "keyword_pass [] = []"
| "keyword_pass (c # cs) =
     (case find (\<lambda>k. prefix k (c # cs)) keyword_tokens of
        Some k \<Rightarrow> span ''keyword'' k @ keyword_pass (drop (length k) (c # cs))
      | None \<Rightarrow> c # keyword_pass cs)"
  by pat_completeness auto
termination
  by (relation "measure length") (auto simp: find_Some_iff keyword_tokens_def nth_Cons' split: if_splits)

text \<open>
  \<open>.replace(/&quot;([^&]*)&quot;/gm, '<span class="string">&quot;$1&quot;</span>')\<close>:
  after an opening \<open>&quot;\<close> the group takes the longest run without \<open>&\<close>; the closing
  \<open>&quot;\<close> starts with \<open>&\<close>, so no shorter run can be followed by it.
\<close>

function string_pass :: "string \<Rightarrow> string" where
  "string_pass [] = []"
| "string_pass (c # cs) =
     (if prefix ''&quot;'' (c # cs) then
        (let body = takeWhile (\<lambda>x. x \<noteq> CHR ''&'') (drop 5 cs);
             after = dropWhile (\<lambda>x. x \<noteq> CHR ''&'') (drop 5 cs)
         in if prefix ''&quot;'' after
            then span ''string'' (''&quot;'' @ body @ ''&quot;'') @ string_pass (drop 6 after)
            else c # string_pass cs)
      else c # string_pass cs)"
  by pat_completeness auto
termination
proof (relation "measure length")
  show "wf (measure length)" by simp
next
  fix c :: char and cs :: string and x xa
  assume "xa = dropWhile (\<lambda>x. x \<noteq> CHR ''&'') (drop 5 cs)"
  moreover have "length (dropWhile (\<lambda>x. x \<noteq> CHR ''&'') (drop 5 cs)) \<le> length (drop 5 cs)"
    by (rule length_dropWhile_le)
  ultimately have "length (drop 6 xa) \<le> length cs"
    by simp
  then show "(drop 6 xa, c # cs) \<in> measure length" by simp
qed simp_all

text \<open>
  \<open>.replace(/\b(\d+)\b/gm, '<span class="number">$1</span>')\<close>: a match starts at a digit
  whose predecessor is not a word character, takes the whole run of digits, and needs a
  non-word character or the end of the text after the run (after a shorter run comes a digit,
  which is no word boundary). The flag says whether the preceding character of the input is a
  word character.
\<close>

function number_pass :: "bool \<Rightarrow> string \<Rightarrow> string" where
  "number_pass prev_word [] = []"
| "number_pass prev_word (c # cs) =
     (if is_digit c \<and> \<not> prev_word
         \<and> (case dropWhile is_digit cs of [] \<Rightarrow> True | d # _ \<Rightarrow> \<not> is_word d)
      then span ''number'' (c # takeWhile is_digit cs) @ number_pass True (dropWhile is_digit cs)
      else c # number_pass (is_word c) cs)"
  by pat_completeness auto
termination
  by (relation "measure (\<lambda>(b, s). length s)") (auto simp: less_Suc_eq_le length_dropWhile_le)

definition highlight :: "string \<Rightarrow> string" where
  "highlight raw = number_pass False (string_pass (keyword_pass (comment_pass (escapeHtml raw))))"

section \<open>generateCHeader and exportCHeader\<close>

definition generateCHeader :: "props \<Rightarrow> valuemap \<Rightarrow> string" where
  "generateCHeader p v = highlight (raw_header p v)"

text \<open>What \<open>exportCHeader\<close> hands to \<open>triggerDownload\<close>: the blob and the file name.\<close>

record download =
  content :: string
  mime :: string
  filename :: string

definition exportCHeader :: "props \<Rightarrow> valuemap \<Rightarrow> download" where
  "exportCHeader p v =
     \<lparr>content = generateCHeader p v,
      mime = ''text/x-c-header'',
      filename = variant_or_default p @ ''_final_cfg.h''\<rparr>"

section \<open>Specification-side definitions\<close>

text \<open>\<open>s.replace(/ab/g, r)\<close> for a two-character pattern \<open>ab\<close>.\<close>

fun replace_pair :: "char \<Rightarrow> char \<Rightarrow> string \<Rightarrow> string \<Rightarrow> string" where
  "replace_pair a b r (x # y # s) =
     (if x = a \<and> y = b then r @ replace_pair a b r s else x # replace_pair a b r (y # s))"
| "replace_pair a b r s = s"

text \<open>
  The unescaping the specification names, the reverse of backslash-then-quote escaping:
  first every backslash-quote becomes a quote, then every doubled backslash a single one.
\<close>

definition spec_unescape :: "string \<Rightarrow> string" where
  \<open>spec_unescape s =
     replace_pair (CHR 0x5C) (CHR 0x5C) [CHR 0x5C]
       (replace_pair (CHR 0x5C) (CHR ''"'') [CHR ''"''] s)\<close>

section \<open>The sections of the header\<close>

text \<open>
  The generator starts from an empty array of lines. The names below stand for the lines it
  pushes before the first loop, and for the lines each loop pushes when started from the
  empty array.
\<close>

definition gen0 :: gen where "gen0 = \<lparr>lines = [], console = []\<rparr>"

definition preamble :: "props \<Rightarrow> string list" where
  "preamble p = [''#pragma once'', ''// Auto-generated header from Config Editor'',
     ''// Variant: '' @ escapeHtml (variant_or_default p), '''',
     ''// Variant-specific defines (highest priority)'']"

definition variant_lines :: "props \<Rightarrow> valuemap \<Rightarrow> string list" where
  "variant_lines p v = lines (fold (variant_define p v) (keys v) gen0)"

definition default_lines :: "props \<Rightarrow> string list" where
  "default_lines p = lines (fold (default_define p) (keys (schema p)) gen0)"

section \<open>Text that is safe as HTML content\<close>

text \<open>
  A text is tokenised over a list of tokens when it is a sequence of tokens and of characters
  other than the five special ones. The escaped text consists of plain characters and the five
  entities; the passes add the five span tags, and the number pass puts a span inside the
  entity of the apostrophe.
\<close>

definition specials :: string where
  \<open>specials = ''<>&"'' @ [CHR 0x27]\<close>

definition span_tags :: "string list" where
  \<open>span_tags = [''<span class="comment">'', ''<span class="keyword">'',
                 ''<span class="string">'', ''<span class="number">'', ''</span>'']\<close>

definition escaped_tokens :: "string list" where
  \<open>escaped_tokens = [''&amp;'', ''&lt;'', ''&gt;'', ''&quot;'', ''&#39;''] @ span_tags\<close>

definition highlighted_tokens :: "string list" where
  \<open>highlighted_tokens =
     [''&amp;'', ''&lt;'', ''&gt;'', ''&quot;'', ''&#<span class="number">39</span>;'']
     @ span_tags\<close>

function tokenised :: "string list \<Rightarrow> string \<Rightarrow> bool" where
  "tokenised T [] = True"
| "tokenised T (c # cs) =
     (case find (\<lambda>t. t \<noteq> [] \<and> prefix t (c # cs)) T of
        Some t \<Rightarrow> tokenised T (drop (length t) (c # cs))
      | None \<Rightarrow> c \<notin> set specials \<and> tokenised T cs)"
  by pat_completeness auto
termination
  by (relation "measure (\<lambda>(T, s). length s)") (auto simp: find_Some_iff)

definition html_safe :: "string \<Rightarrow> bool" where
  "html_safe s = tokenised highlighted_tokens s"

text \<open>
  Every token starts with \<open><\<close> or \<open>&\<close>, and no token is a prefix of another one: a text
  is cut into tokens in one way only.
\<close>

definition token_list :: "string list \<Rightarrow> bool" where
  "token_list T =
     (list_all (\<lambda>t. t \<noteq> [] \<and> (hd t = CHR ''<'' \<or> hd t = CHR ''&'')) T
      \<and> list_all (\<lambda>t. list_all (\<lambda>t'. prefix t t' = (t = t')) T) T)"

section \<open>Replacement of characters\<close>

lemma replace_char_Nil [simp]: "replace_char c r [] = []"
  by (simp add: replace_char_def)

lemma replace_char_Cons [simp]:
  "replace_char c r (x # s) = (if x = c then r else [x]) @ replace_char c r s"
  by (simp add: replace_char_def)

lemma replace_char_append [simp]:
  "replace_char c r (s @ t) = replace_char c r s @ replace_char c r t"
  by (simp add: replace_char_def)

section \<open>String literals can be decoded\<close>

lemma replace_pair_skip_first:
  "x \<noteq> a \<Longrightarrow> replace_pair a b r (x # s) = x # replace_pair a b r s"
  by (cases s) simp_all

lemma replace_pair_skip_second:
  "s \<noteq> [] \<Longrightarrow> hd s \<noteq> b \<Longrightarrow> replace_pair a b r (x # s) = x # replace_pair a b r s"
  by (cases s) simp_all

lemma escaped_quote_head:
  \<open>replace_char (CHR ''"'') [CHR 0x5C, CHR ''"''] s = [] \<or>
   hd (replace_char (CHR ''"'') [CHR 0x5C, CHR ''"''] s) \<noteq> CHR ''"''\<close>
  by (cases s) auto

lemma undo_quote_escape:
  \<open>replace_pair (CHR 0x5C) (CHR ''"'') [CHR ''"'']
      (replace_char (CHR ''"'') [CHR 0x5C, CHR ''"''] (replace_char (CHR 0x5C) [CHR 0x5C, CHR 0x5C] v))
    = replace_char (CHR 0x5C) [CHR 0x5C, CHR 0x5C] v\<close>
proof (induction v)
  case Nil
  show ?case by simp
next
  case (Cons c v)
  let ?R = \<open>replace_char (CHR ''"'') [CHR 0x5C, CHR ''"''] (replace_char (CHR 0x5C) [CHR 0x5C, CHR 0x5C] v)\<close>
  have tail: \<open>replace_pair (CHR 0x5C) (CHR ''"'') [CHR ''"''] (CHR 0x5C # ?R)
              = CHR 0x5C # replace_pair (CHR 0x5C) (CHR ''"'') [CHR ''"''] ?R\<close>
    using escaped_quote_head[of \<open>replace_char (CHR 0x5C) [CHR 0x5C, CHR 0x5C] v\<close>]
    by (cases ?R) (simp_all add: replace_pair_skip_second)
  show ?case
  proof (cases "c = CHR 0x5C")
    case True
    then show ?thesis using Cons.IH tail by simp
  next
    case False
    then show ?thesis using Cons.IH by (simp add: replace_pair_skip_first)
  qed
qed

lemma undo_backslash_escape:
  \<open>replace_pair (CHR 0x5C) (CHR 0x5C) [CHR 0x5C] (replace_char (CHR 0x5C) [CHR 0x5C, CHR 0x5C] v) = v\<close>
  by (induction v) (simp_all add: replace_pair_skip_first)

text \<open>
  C5. A string value \<open>v\<close> is emitted between double quotes, with every backslash doubled
  first and every double quote then preceded by a backslash; undoing the two replacements in
  the reverse order on the body of the literal gives \<open>v\<close> back, whatever backslashes and
  quotes it contains.
\<close>

theorem string_literal_round_trip:
  \<open>define_line k ''string'' (JStr v) = ''#define '' @ k @ '' "'' @ c_escape v @ ''"''
   \<and> c_escape v = replace_char (CHR ''"'') [CHR 0x5C, CHR ''"'']
                     (replace_char (CHR 0x5C) [CHR 0x5C, CHR 0x5C] v)
   \<and> spec_unescape (c_escape v) = v\<close>
  by (simp add: define_line_def c_escape_def spec_unescape_def undo_quote_escape
      undo_backslash_escape)

section \<open>The structure of the generated lines\<close>

lemma lines_push [simp]: "lines (push l g) = lines g @ [l]"
  and console_push [simp]: "console (push l g) = console g"
  and lines_warn [simp]: "lines (console_warn m g) = lines g"
  and console_warn_eq [simp]: "console (console_warn m g) = console g @ [m]"
  by (simp_all add: push_def console_warn_def)

lemma lines_gen0 [simp]: "lines gen0 = []" and console_gen0 [simp]: "console gen0 = []"
  by (simp_all add: gen0_def)

lemma lines_variant_define:
  "lines (variant_define p v k g) = lines g @ lines (variant_define p v k gen0)"
  by (simp add: variant_define_def split: schema_entry.split)

lemma console_variant_define:
  "console (variant_define p v k g) = console g @ console (variant_define p v k gen0)"
  by (simp add: variant_define_def split: schema_entry.split)

lemma lines_default_define:
  "lines (default_define p k g) = lines g @ lines (default_define p k gen0)"
  by (simp add: default_define_def Let_def split: schema_entry.split)

lemma console_default_define [simp]: "console (default_define p k g) = console g"
  by (simp add: default_define_def Let_def split: schema_entry.split)

lemma lines_fold_variant:
  "lines (fold (variant_define p v) ks g)
     = lines g @ concat (map (\<lambda>k. lines (variant_define p v k gen0)) ks)"
proof (induction ks arbitrary: g)
  case Nil
  show ?case by simp
next
  case (Cons k ks)
  show ?case
    by (simp add: Cons.IH) (subst lines_variant_define, simp)
qed

lemma console_fold_variant:
  "console (fold (variant_define p v) ks g)
     = console g @ concat (map (\<lambda>k. console (variant_define p v k gen0)) ks)"
proof (induction ks arbitrary: g)
  case Nil
  show ?case by simp
next
  case (Cons k ks)
  show ?case
    by (simp add: Cons.IH) (subst console_variant_define, simp)
qed

lemma lines_fold_default:
  "lines (fold (default_define p) ks g)
     = lines g @ concat (map (\<lambda>k. lines (default_define p k gen0)) ks)"
proof (induction ks arbitrary: g)
  case Nil
  show ?case by simp
next
  case (Cons k ks)
  show ?case
    by (simp add: Cons.IH) (subst lines_default_define, simp)
qed

lemma console_fold_default [simp]: "console (fold (default_define p) ks g) = console g"
  by (induction ks arbitrary: g) simp_all

lemma lines_header_gen:
  "lines (header_gen p v) =
     preamble p
     @ concat (map (\<lambda>k. lines (variant_define p v k gen0)) (keys v))
     @ ['''', ''// Common defaults (only applied if not defined by variant)'']
     @ concat (map (\<lambda>k. lines (default_define p k gen0)) (keys (schema p)))"
  by (simp add: header_gen_def lines_fold_default lines_fold_variant preamble_def)

lemma console_header_gen:
  "console (header_gen p v) = concat (map (\<lambda>k. console (variant_define p v k gen0)) (keys v))"
  by (simp add: header_gen_def console_fold_variant)

lemma join_lines_append:
  "a \<noteq> [] \<Longrightarrow> b \<noteq> [] \<Longrightarrow> join_lines (a @ b) = join_lines a @ CHR 0x0A # join_lines b"
proof (induction a rule: join_lines.induct)
  case 1
  then show ?case by simp
next
  case (2 l)
  then show ?case by (cases b) simp_all
next
  case (3 l m ls)
  then show ?case by simp
qed

lemma define_line_prefix: "prefix (''#define '' @ k @ '' '') (define_line k ty x)"
  by (simp add: define_line_def)

lemma variant_lines_concat:
  "variant_lines p v = concat (map (\<lambda>k. lines (variant_define p v k gen0)) (keys v))"
  by (simp add: variant_lines_def lines_fold_variant)

lemma default_lines_concat:
  "default_lines p = concat (map (\<lambda>k. lines (default_define p k gen0)) (keys (schema p)))"
  by (simp add: default_lines_def lines_fold_default)

lemma header_gen_sections:
  "lines (header_gen p v) =
     preamble p @ variant_lines p v
     @ ['''', ''// Common defaults (only applied if not defined by variant)'']
     @ default_lines p"
  by (simp add: lines_header_gen variant_lines_concat default_lines_concat)

lemma variant_lines_are_defines: "list_all (prefix ''#define '') (variant_lines p v)"
proof -
  have "list_all (prefix ''#define '') (lines (variant_define p v k gen0))" for k
    by (simp add: variant_define_def define_line_def split: schema_entry.split)
  then show ?thesis
    by (simp add: variant_lines_concat list_all_iff)
qed

lemma preamble_no_ifndef: "list_all (\<lambda>l. \<not> prefix ''#ifndef'' l) (preamble p)"
  by (simp add: preamble_def)

lemma define_no_ifndef: "prefix ''#define '' l \<Longrightarrow> \<not> prefix ''#ifndef'' l"
  by (auto simp: prefix_def)

text \<open>
  C4. The lines of the header are the preamble, then the lines of the first loop (Tier 1),
  then an empty line and a comment, then the lines of the second loop (Tier 2), and the text
  joins them with newlines. Every Tier-1 line is a \<open>#define\<close> and no \<open>#ifndef\<close> occurs before
  Tier 2. For the schema \<open>{A: {type: 'number', default: 1}}\<close> and the values \<open>{A: 2}\<close> the line
  \<open>#define A 2\<close> comes before the block \<open>#ifndef A\<close>, \<open>#define A 1\<close>, \<open>#endif\<close>.
\<close>

theorem tier1_precedes_tier2:
  "lines (header_gen p v) =
     preamble p @ variant_lines p v
     @ ['''', ''// Common defaults (only applied if not defined by variant)'']
     @ default_lines p
   \<and> raw_header p v =
     join_lines (preamble p @ variant_lines p v) @ CHR 0x0A #
     join_lines (['''', ''// Common defaults (only applied if not defined by variant)'']
                 @ default_lines p)
   \<and> list_all (prefix ''#define '') (variant_lines p v)
   \<and> list_all (\<lambda>l. \<not> prefix ''#ifndef'' l) (preamble p @ variant_lines p v)
   \<and> lines (header_gen
         \<lparr>schema = [(''A'', \<lparr>type = ''number'', default = JNum 1, description = dsc\<rparr>)],
          variantName = ''variant''\<rparr>
         [(''A'', JNum 2)])
       = [''#pragma once'', ''// Auto-generated header from Config Editor'',
          ''// Variant: variant'', '''', ''// Variant-specific defines (highest priority)'',
          ''#define A 2'',
          '''', ''// Common defaults (only applied if not defined by variant)'',
          ''#ifndef A'', ''#define A 1'', ''#endif'']"
proof -
  have sec: "lines (header_gen p v) =
     preamble p @ variant_lines p v
     @ ['''', ''// Common defaults (only applied if not defined by variant)'']
     @ default_lines p"
    by (rule header_gen_sections)
  have raw: "raw_header p v =
     join_lines (preamble p @ variant_lines p v) @ CHR 0x0A #
     join_lines (['''', ''// Common defaults (only applied if not defined by variant)'']
                 @ default_lines p)"
  proof -
    have "preamble p @ variant_lines p v \<noteq> []"
      by (simp add: preamble_def)
    then show ?thesis
      unfolding raw_header_def sec
      using join_lines_append[of "preamble p @ variant_lines p v"
          "['''', ''// Common defaults (only applied if not defined by variant)''] @ default_lines p"]
      by simp
  qed
  have defs: "list_all (prefix ''#define '') (variant_lines p v)"
    by (rule variant_lines_are_defines)
  have noif: "list_all (\<lambda>l. \<not> prefix ''#ifndef'' l) (preamble p @ variant_lines p v)"
    using defs preamble_no_ifndef[of p] define_no_ifndef
    by (auto simp: list_all_iff)
  have ex: "lines (header_gen
         \<lparr>schema = [(''A'', \<lparr>type = ''number'', default = JNum 1, description = dsc\<rparr>)],
          variantName = ''variant''\<rparr>
         [(''A'', JNum 2)])
       = [''#pragma once'', ''// Auto-generated header from Config Editor'',
          ''// Variant: variant'', '''', ''// Variant-specific defines (highest priority)'',
          ''#define A 2'',
          '''', ''// Common defaults (only applied if not defined by variant)'',
          ''#ifndef A'', ''#define A 1'', ''#endif'']"
    by (simp add: header_gen_def keys_def variant_define_def default_define_def define_line_def
        schema_get_def
        get_value_def variant_or_default_def escapeHtml_def is_ident_start_def show_int_def
        show_nat.simps)
  show ?thesis using sec raw defs noif ex by blast
qed

lemma default_define_block:
  "map_of (schema p) k = Some d \<Longrightarrow> default d \<noteq> JUndefined \<Longrightarrow> isValidCIdentifier k \<Longrightarrow>
   lines (default_define p k gen0) = [''#ifndef '' @ k, define_line k (type d) (default d), ''#endif'']"
  by (simp add: default_define_def Let_def schema_get_def)

lemma sublist_concat_map:
  "k \<in> set ks \<Longrightarrow> sublist (f k) (concat (map f ks))"
proof -
  assume "k \<in> set ks"
  then obtain a b where "ks = a @ k # b"
    by (auto dest: split_list)
  then show ?thesis
    by (simp add: sublist_def) blast
qed

lemma map_of_in_keys: "map_of obj k = Some d \<Longrightarrow> k \<in> set (keys obj)"
  by (auto simp: keys_def dest: map_of_SomeD intro: rev_image_eqI)

text \<open>
  C7. A schema key that is a valid identifier and whose descriptor declares a default (any
  value but \<open>undefined\<close>) gets the block \<open>#ifndef k\<close>, \<open>#define k\<close> with the encoded
  default, \<open>#endif\<close> in Tier 2, whatever the value mapping is; the falsy defaults
  \<open>false\<close>, \<open>0\<close> and the empty string are encoded as \<open>0\<close>, \<open>0\<close> and \<open>""\<close>.
\<close>

theorem falsy_defaults_preserved:
  assumes "map_of (schema p) k = Some d" and "default d \<noteq> JUndefined"
    and "isValidCIdentifier k"
  shows \<open>sublist [''#ifndef '' @ k, define_line k (type d) (default d), ''#endif'']
           (default_lines p)
    \<and> sublist [''#ifndef '' @ k, define_line k (type d) (default d), ''#endif'']
           (lines (header_gen p v))
    \<and> define_line k ''boolean'' (JBool False) = ''#define '' @ k @ '' 0''
    \<and> define_line k ''number'' (JNum 0) = ''#define '' @ k @ '' 0''
    \<and> define_line k ''string'' (JStr '''') = ''#define '' @ k @ '' ""''\<close>
proof -
  let ?blk = "[''#ifndef '' @ k, define_line k (type d) (default d), ''#endif'']"
  have "k \<in> set (keys (schema p))"
    using assms(1) by (rule map_of_in_keys)
  then have "sublist (lines (default_define p k gen0)) (default_lines p)"
    unfolding default_lines_concat by (rule sublist_concat_map)
  then have d: "sublist ?blk (default_lines p)"
    using assms by (simp add: default_define_block)
  then obtain a b where "default_lines p = a @ ?blk @ b"
    by (auto simp: sublist_def)
  then have "lines (header_gen p v) =
      (preamble p @ variant_lines p v
       @ ['''', ''// Common defaults (only applied if not defined by variant)''] @ a) @ ?blk @ b"
    by (simp add: header_gen_sections)
  then have h: "sublist ?blk (lines (header_gen p v))"
    unfolding sublist_def by blast
  have e: \<open>define_line k ''boolean'' (JBool False) = ''#define '' @ k @ '' 0''
      \<and> define_line k ''number'' (JNum 0) = ''#define '' @ k @ '' 0''
      \<and> define_line k ''string'' (JStr '''') = ''#define '' @ k @ '' ""''\<close>
    by (simp add: define_line_def c_escape_def show_int_def show_nat.simps)
  show ?thesis
    using d h e by blast
qed

theorem falsy_defaults_preserved_witness:
  "map_of (schema \<lparr>schema = [(''B'', \<lparr>type = ''boolean'', default = JBool False, description = None\<rparr>)],
                   variantName = ''variant''\<rparr>) ''B''
     = Some \<lparr>type = ''boolean'', default = JBool False, description = None\<rparr>
   \<and> default \<lparr>type = ''boolean'', default = JBool False, description = None\<rparr> \<noteq> JUndefined
   \<and> isValidCIdentifier ''B''
   \<and> sublist [''#ifndef B'', ''#define B 0'', ''#endif'']
        (lines (header_gen
           \<lparr>schema = [(''B'', \<lparr>type = ''boolean'', default = JBool False, description = None\<rparr>)],
            variantName = ''variant''\<rparr> []))
   \<and> lines (header_gen
           \<lparr>schema = [(''B'', \<lparr>type = ''boolean'', default = JBool False, description = None\<rparr>)],
            variantName = ''variant''\<rparr> [])
       = [''#pragma once'', ''// Auto-generated header from Config Editor'',
          ''// Variant: variant'', '''', ''// Variant-specific defines (highest priority)'',
          '''', ''// Common defaults (only applied if not defined by variant)'',
          ''#ifndef B'', ''#define B 0'', ''#endif'']"
proof -
  let ?d = "\<lparr>type = ''boolean'', default = JBool False, description = None\<rparr>"
  let ?p = "\<lparr>schema = [(''B'', ?d)], variantName = ''variant''\<rparr>"
  have 1: "map_of (schema ?p) ''B'' = Some ?d" by simp
  have 2: "default ?d \<noteq> JUndefined" by simp
  have 3: "isValidCIdentifier ''B''" by (simp add: is_ident_start_def)
  have 4: "lines (header_gen ?p []) 
       = [''#pragma once'', ''// Auto-generated header from Config Editor'',
          ''// Variant: variant'', '''', ''// Variant-specific defines (highest priority)'',
          '''', ''// Common defaults (only applied if not defined by variant)'',
          ''#ifndef B'', ''#define B 0'', ''#endif'']"
    by (simp add: header_gen_def keys_def default_define_def define_line_def schema_get_def
        variant_or_default_def escapeHtml_def is_ident_start_def)
  show ?thesis
    using falsy_defaults_preserved[OF 1 2 3, of "[]"] 1 2 3 4
    by (simp add: define_line_def)
qed


section \<open>Skipped keys, null entries and the download\<close>

lemma map_of_filter_other:
  "k' \<noteq> k \<Longrightarrow> map_of (filter (\<lambda>e. fst e \<noteq> k) v) k' = map_of v k'"
  by (induction v) auto

lemma get_value_filter_other:
  "k' \<noteq> k \<Longrightarrow> get_value (filter (\<lambda>e. fst e \<noteq> k) v) k' = get_value v k'"
  by (simp add: get_value_def map_of_filter_other)

lemma keys_filter: "keys (filter (\<lambda>e. fst e \<noteq> k) v) = filter (\<lambda>k'. k' \<noteq> k) (keys v)"
  by (induction v) (simp_all add: keys_def)

lemma variant_define_filter_other:
  "k' \<noteq> k \<Longrightarrow>
   variant_define p (filter (\<lambda>e. fst e \<noteq> k) v) k' g = variant_define p v k' g"
  by (simp add: variant_define_def get_value_filter_other split: schema_entry.split)

lemma concat_map_filter_skipped:
  "f k = [] \<Longrightarrow> (\<And>k'. k' \<noteq> k \<Longrightarrow> f' k' = f k') \<Longrightarrow>
   concat (map f' (filter (\<lambda>k'. k' \<noteq> k) ks)) = concat (map f ks)"
  by (induction ks) simp_all

lemma schema_get_own: "map_of (schema p) k = Some d \<Longrightarrow> schema_get p k = Own d"
  by (simp add: schema_get_def)

lemma skipped_key_no_line:
  "\<not> isValidCIdentifier k \<or> schema_get p k = Missing \<Longrightarrow>
   lines (variant_define p v k g) = lines g"
  by (auto simp: variant_define_def)

lemma skipped_key_warning:
  "\<not> isValidCIdentifier k \<or> schema_get p k = Missing \<Longrightarrow>
   console (variant_define p v k g) = console g @
     [if \<not> isValidCIdentifier k then ''Skipping invalid C identifier: '' @ k
      else ''No schema found for key: '' @ k]"
  by (auto simp: variant_define_def)

lemma skipped_key_no_default:
  "\<not> isValidCIdentifier k \<or> schema_get p k = Missing \<Longrightarrow>
   lines (default_define p k g) = lines g"
  by (auto simp: default_define_def Let_def split: schema_entry.split)

text \<open>
  Where the two guards of the first loop work. A key that is not a valid C identifier, or for
  which \<open>props.schema[k]\<close> is \<open>undefined\<close>, gets no line in either loop and one warning in the
  first, and the header is the one generated from the value mapping without that key.
\<close>

lemma skipped_key_is_omitted:
  assumes "\<not> isValidCIdentifier k \<or> schema_get p k = Missing"
  shows "lines (variant_define p v k g) = lines g
    \<and> console (variant_define p v k g) = console g @
         [if \<not> isValidCIdentifier k then ''Skipping invalid C identifier: '' @ k
          else ''No schema found for key: '' @ k]
    \<and> lines (default_define p k g) = lines g
    \<and> lines (header_gen p v) = lines (header_gen p (filter (\<lambda>e. fst e \<noteq> k) v))
    \<and> (k \<in> set (keys v) \<longrightarrow>
         (if \<not> isValidCIdentifier k then ''Skipping invalid C identifier: '' @ k
          else ''No schema found for key: '' @ k) \<in> set (console (header_gen p v)))"
proof -
  let ?w = "if \<not> isValidCIdentifier k then ''Skipping invalid C identifier: '' @ k
            else ''No schema found for key: '' @ k"
  have a: "lines (variant_define p v k g) = lines g"
    using assms by (rule skipped_key_no_line)
  have b: "console (variant_define p v k g) = console g @ [?w]"
    using assms by (rule skipped_key_warning)
  have c: "lines (default_define p k g) = lines g"
    using assms by (rule skipped_key_no_default)
  have "lines (variant_define p v k gen0) = []"
    using skipped_key_no_line[OF assms, of v gen0] by simp
  then have "variant_lines p (filter (\<lambda>e. fst e \<noteq> k) v) = variant_lines p v"
    unfolding variant_lines_concat keys_filter
    by (rule concat_map_filter_skipped) (simp add: variant_define_filter_other)
  then have d: "lines (header_gen p v) = lines (header_gen p (filter (\<lambda>e. fst e \<noteq> k) v))"
    by (simp add: header_gen_sections)
  have e: "?w \<in> set (console (header_gen p v))" if "k \<in> set (keys v)"
  proof -
    have "console (variant_define p v k gen0) = [?w]"
      using skipped_key_warning[OF assms, of v gen0] by simp
    with that show ?thesis
      unfolding console_header_gen by (auto intro!: bexI[of _ k])
  qed
  show ?thesis using a b c d e by blast
qed

text \<open>
  A key of the value mapping that is a valid identifier with a descriptor of its own gets its
  \<open>#define\<close> line in Tier 1 and no warning, whatever the other keys are.
\<close>

lemma well_formed_key_is_emitted:
  assumes "isValidCIdentifier k" and "map_of (schema p) k = Some d" and "k \<in> set (keys v)"
  shows "define_line k (type d) (get_value v k) \<in> set (variant_lines p v)
    \<and> console (variant_define p v k g) = console g"
proof -
  have l: "lines (variant_define p v k gen0) = [define_line k (type d) (get_value v k)]"
    using assms(1,2) by (simp add: variant_define_def schema_get_def)
  have "sublist (lines (variant_define p v k gen0)) (variant_lines p v)"
    unfolding variant_lines_concat using assms(3) by (rule sublist_concat_map)
  then have "define_line k (type d) (get_value v k) \<in> set (variant_lines p v)"
    unfolding l by (auto simp: sublist_def)
  moreover have "console (variant_define p v k g) = console g"
    using assms(1,2) by (simp add: variant_define_def schema_get_def)
  ultimately show ?thesis by blast
qed

text \<open>
  Where the second guard misses a case. For a key that names a member of
  \<open>Object.prototype\<close> and has no descriptor of its own, \<open>props.schema[k]\<close> is the inherited
  member, which is truthy: the key is not skipped, no warning is logged, and the last branch
  prints its value.
\<close>

lemma inherited_key_is_emitted:
  assumes "isValidCIdentifier k" and "map_of (schema p) k = None"
    and "k \<in> set object_prototype_names"
  shows "lines (variant_define p v k g)
       = lines g @ [''#define '' @ k @ '' '' @ String (get_value v k)]
    \<and> console (variant_define p v k g) = console g"
  using assms by (simp add: variant_define_def schema_get_def)


text \<open>
  C2, as stated, fails: for the schema \<open>{A: {type: 'number'}}\<close>, whose form value starts as
  \<open>null\<close>, the header has the Tier-1 line \<open>#define A null\<close>.
\<close>

theorem null_entry_is_emitted:
  "get_value [(''A'', JNull)] ''A'' = JNull
   \<and> lines (header_gen
         \<lparr>schema = [(''A'', \<lparr>type = ''number'', default = JUndefined, description = None\<rparr>)],
          variantName = ''variant''\<rparr> [(''A'', JNull)])
       = [''#pragma once'', ''// Auto-generated header from Config Editor'',
          ''// Variant: variant'', '''', ''// Variant-specific defines (highest priority)'',
          ''#define A null'',
          '''', ''// Common defaults (only applied if not defined by variant)'']"
  by (simp add: header_gen_def keys_def variant_define_def default_define_def define_line_def
      schema_get_def
      get_value_def variant_or_default_def escapeHtml_def is_ident_start_def)

text \<open>
  C2, amended. A \<open>null\<close> entry is not omitted: for a valid identifier with a descriptor the
  first loop pushes \<open>#define k 0\<close> for a boolean, \<open>#define k "null"\<close> for a string and
  \<open>#define k null\<close> for any other type, and logs nothing.
\<close>

theorem null_entries_are_encoded:
  assumes "isValidCIdentifier k" and "map_of (schema p) k = Some d"
    and "map_of v k = Some JNull"
  shows \<open>lines (variant_define p v k g) = lines g @
           [''#define '' @ k @
             (if type d = ''boolean'' then '' 0''
              else if type d = ''string'' then '' "null"'' else '' null'')]
    \<and> console (variant_define p v k g) = console g
    \<and> (''#define '' @ k @
             (if type d = ''boolean'' then '' 0''
              else if type d = ''string'' then '' "null"'' else '' null''))
        \<in> set (variant_lines p v)\<close>
proof -
  let ?l = \<open>''#define '' @ k @
             (if type d = ''boolean'' then '' 0''
              else if type d = ''string'' then '' "null"'' else '' null'')\<close>
  have gv: "get_value v k = JNull"
    using assms(3) by (simp add: get_value_def)
  have dl: "define_line k (type d) JNull = ?l"
    by (simp add: define_line_def c_escape_def)
  have a: "lines (variant_define p v k g) = lines g @ [?l]" for g
    using assms(1,2) gv dl by (simp add: variant_define_def schema_get_def)
  have b: "console (variant_define p v k g) = console g"
    using assms(1,2) by (simp add: variant_define_def schema_get_def)
  have "k \<in> set (keys v)"
    using assms(3) by (rule map_of_in_keys)
  then have "sublist (lines (variant_define p v k gen0)) (variant_lines p v)"
    unfolding variant_lines_concat by (rule sublist_concat_map)
  then have c: "?l \<in> set (variant_lines p v)"
    using a[of gen0] by (auto simp: sublist_def)
  show ?thesis using a b c by blast
qed

theorem null_entries_are_encoded_witness:
  \<open>isValidCIdentifier ''S''
   \<and> map_of (schema \<lparr>schema = [(''S'', \<lparr>type = ''string'', default = JUndefined, description = None\<rparr>)],
                     variantName = ''variant''\<rparr>) ''S''
       = Some \<lparr>type = ''string'', default = JUndefined, description = None\<rparr>
   \<and> map_of [(''S'', JNull)] ''S'' = Some JNull
   \<and> ''#define S "null"''
       \<in> set (variant_lines
           \<lparr>schema = [(''S'', \<lparr>type = ''string'', default = JUndefined, description = None\<rparr>)],
            variantName = ''variant''\<rparr> [(''S'', JNull)])\<close>
proof -
  let ?d = "\<lparr>type = ''string'', default = JUndefined, description = None\<rparr>"
  let ?p = "\<lparr>schema = [(''S'', ?d)], variantName = ''variant''\<rparr>"
  have 1: "isValidCIdentifier ''S''" by (simp add: is_ident_start_def)
  have 2: "map_of (schema ?p) ''S'' = Some ?d" by simp
  have 3: "map_of [(''S'', JNull)] ''S'' = Some JNull" by simp
  show ?thesis
    using null_entries_are_encoded[OF 1 2 3] 1 2 3 by simp
qed

lemma raw_header_empty:
  "raw_header \<lparr>schema = [], variantName = ''v''\<rparr> []
     = ''#pragma once\<newline>// Auto-generated header from Config Editor\<newline>// Variant: v\<newline>\<newline>// Variant-specific defines (highest priority)\<newline>\<newline>// Common defaults (only applied if not defined by variant)''"
  by (simp add: raw_header_def header_gen_def keys_def variant_or_default_def escapeHtml_def)

lemma highlight_empty_header:
  \<open>highlight ''#pragma once\<newline>// Auto-generated header from Config Editor\<newline>// Variant: v\<newline>\<newline>// Variant-specific defines (highest priority)\<newline>\<newline>// Common defaults (only applied if not defined by variant)''
     = ''<span class="keyword">#pragma</span> once\<newline><span class="comment">// Auto-generated header from Config Editor</span>\<newline><span class="comment">// Variant: v</span>\<newline>\<newline><span class="comment">// Variant-specific defines (highest priority)</span>\<newline>\<newline><span class="comment">// Common defaults (only applied if not defined by variant)</span>''\<close>
  by code_simp

text \<open>
  C1. The payload of the download is the return value of \<open>generateCHeader\<close>, which is the
  highlighted text: for an empty schema and the variant name \<open>v\<close> the file
  \<open>v_final_cfg.h\<close> holds span markup and differs from the raw header.
\<close>

theorem export_payload_is_highlighted:
  \<open>content (exportCHeader \<lparr>schema = [], variantName = ''v''\<rparr> [])
     = ''<span class="keyword">#pragma</span> once\<newline><span class="comment">// Auto-generated header from Config Editor</span>\<newline><span class="comment">// Variant: v</span>\<newline>\<newline><span class="comment">// Variant-specific defines (highest priority)</span>\<newline>\<newline><span class="comment">// Common defaults (only applied if not defined by variant)</span>''
   \<and> raw_header \<lparr>schema = [], variantName = ''v''\<rparr> []
     = ''#pragma once\<newline>// Auto-generated header from Config Editor\<newline>// Variant: v\<newline>\<newline>// Variant-specific defines (highest priority)\<newline>\<newline>// Common defaults (only applied if not defined by variant)''
   \<and> filename (exportCHeader \<lparr>schema = [], variantName = ''v''\<rparr> []) = ''v_final_cfg.h''
   \<and> mime (exportCHeader \<lparr>schema = [], variantName = ''v''\<rparr> []) = ''text/x-c-header''
   \<and> (\<forall>p v. content (exportCHeader p v) = highlight (raw_header p v))\<close>
  by (simp add: exportCHeader_def generateCHeader_def raw_header_empty highlight_empty_header
      variant_or_default_def)

section \<open>The highlighting passes\<close>

lemma prefix_cut:
  assumes "prefix u (xs @ z # r)" and "z \<notin> set (tl u)" and "xs \<noteq> []"
  shows "prefix u xs"
proof -
  from assms(1) consider "prefix u xs" | us where "u = xs @ us" "prefix us (z # r)"
    by (auto simp: prefix_append)
  then show ?thesis
  proof cases
    case 1
    then show ?thesis .
  next
    case 2
    show ?thesis
    proof (cases us)
      case Nil
      with 2 show ?thesis by simp
    next
      case (Cons a us')
      with 2 have "a = z" by simp
      with 2 Cons assms(3) have "z \<in> set (tl u)" by (cases xs) auto
      with assms(2) show ?thesis by simp
    qed
  qed
qed

lemma escapeHtml_Nil [simp]: "escapeHtml [] = []"
  by (simp add: escapeHtml_def)

lemma escapeHtml_Cons:
  \<open>escapeHtml (c # s) =
     (if c = CHR ''&'' then ''&amp;''
      else if c = CHR ''<'' then ''&lt;''
      else if c = CHR ''>'' then ''&gt;''
      else if c = CHR ''"'' then ''&quot;''
      else if c = CHR 0x27 then ''&#39;''
      else [c]) @ escapeHtml s\<close>
  by (simp add: escapeHtml_def)

lemma escapeHtml_append: "escapeHtml (s @ t) = escapeHtml s @ escapeHtml t"
  by (simp add: escapeHtml_def)

lemma keyword_token_shape:
  "k \<in> set keyword_tokens \<Longrightarrow> k \<noteq> [] \<and> hd k = CHR ''#'' \<and> CHR ''#'' \<notin> set (tl k)"
  by (auto simp: keyword_tokens_def)

lemma find_keyword_self:
  "k \<in> set keyword_tokens \<Longrightarrow> find (\<lambda>k'. prefix k' (k @ ys)) keyword_tokens = Some k"
  by (auto simp: keyword_tokens_def)

lemma keyword_pass_at_keyword:
  assumes "k \<in> set keyword_tokens"
  shows "keyword_pass (k @ ys) = span ''keyword'' k @ keyword_pass ys"
proof -
  obtain c cs where k: "k = c # cs"
    using keyword_token_shape[OF assms] by (auto simp: neq_Nil_conv)
  have "find (\<lambda>k'. prefix k' (c # cs @ ys)) keyword_tokens = Some k"
    using find_keyword_self[OF assms, of ys] k by simp
  then show ?thesis
    using k by simp
qed

lemma find_keyword_cut:
  assumes "\<forall>k\<in>set keyword_tokens. z \<notin> set (tl k)" and "xs \<noteq> []"
  shows "find (\<lambda>k. prefix k (xs @ z # r)) keyword_tokens
       = find (\<lambda>k. prefix k xs) keyword_tokens"
proof (rule find_cong[OF refl])
  fix k assume k: "k \<in> set keyword_tokens"
  show "prefix k (xs @ z # r) = prefix k xs"
  proof
    assume "prefix k (xs @ z # r)"
    then show "prefix k xs"
    proof (rule prefix_cut)
      show "z \<notin> set (tl k)" using assms(1) k by simp
      show "xs \<noteq> []" by (rule assms(2))
    qed
  next
    assume "prefix k xs"
    then show "prefix k (xs @ z # r)" by (rule prefix_prefix)
  qed
qed

lemma keyword_pass_cut:
  assumes z: "\<forall>k\<in>set keyword_tokens. z \<notin> set (tl k)"
  shows "keyword_pass (xs @ z # r) = keyword_pass xs @ keyword_pass (z # r)"
proof (induction "length xs" arbitrary: xs rule: less_induct)
  case less
  show ?case
  proof (cases xs)
    case Nil
    then show ?thesis by simp
  next
    case (Cons c cs)
    have f: "find (\<lambda>k. prefix k (c # cs @ z # r)) keyword_tokens
           = find (\<lambda>k. prefix k (c # cs)) keyword_tokens"
      using find_keyword_cut[OF z, of "c # cs" r] by simp
    show ?thesis
    proof (cases "find (\<lambda>k. prefix k (c # cs)) keyword_tokens")
      case None
      have "keyword_pass (cs @ z # r) = keyword_pass cs @ keyword_pass (z # r)"
        using less[of cs] Cons by simp
      then show ?thesis
        using f None Cons by simp
    next
      case (Some k)
      then have "prefix k (c # cs)" and "k \<in> set keyword_tokens"
        by (auto simp: find_Some_iff)
      then obtain rest where rest: "c # cs = k @ rest" and ne: "k \<noteq> []"
        using keyword_token_shape[of k] by (auto simp: prefix_def)
      have "length (c # cs) = length k + length rest"
        by (simp only: rest length_append)
      then have len: "length rest < length xs"
        using Cons ne by simp
      have "(c # cs) @ z # r = (k @ rest) @ z # r"
        by (simp only: rest)
      then have e: "c # cs @ z # r = k @ rest @ z # r"
        by simp
      have d1: "drop (length k) (c # cs @ z # r) = rest @ z # r"
        by (simp only: e) simp
      have d2: "drop (length k) (c # cs) = rest"
        by (simp only: rest) simp
      have "keyword_pass (c # cs @ z # r)
            = (case find (\<lambda>k. prefix k (c # cs @ z # r)) keyword_tokens of
                 Some k \<Rightarrow> span ''keyword'' k @ keyword_pass (drop (length k) (c # cs @ z # r))
               | None \<Rightarrow> c # keyword_pass (cs @ z # r))"
        by (rule keyword_pass.simps(2))
      then have 1: "keyword_pass (c # cs @ z # r)
            = span ''keyword'' k @ keyword_pass (rest @ z # r)"
        by (simp only: f Some d1 option.case)
      have "keyword_pass (c # cs)
            = (case find (\<lambda>k. prefix k (c # cs)) keyword_tokens of
                 Some k \<Rightarrow> span ''keyword'' k @ keyword_pass (drop (length k) (c # cs))
               | None \<Rightarrow> c # keyword_pass cs)"
        by (rule keyword_pass.simps(2))
      then have 2: "keyword_pass (c # cs) = span ''keyword'' k @ keyword_pass rest"
        by (simp only: Some d2 option.case)
      have "keyword_pass (rest @ z # r) = keyword_pass rest @ keyword_pass (z # r)"
        using len by (rule less)
      then show ?thesis
        using 1 2 Cons by simp
    qed
  qed
qed

lemma keyword_pass_split:
  assumes "k \<in> set keyword_tokens"
  shows "keyword_pass (xs @ k @ ys) = keyword_pass xs @ span ''keyword'' k @ keyword_pass ys"
proof -
  obtain k' where k: "k = CHR ''#'' # k'"
    using keyword_token_shape[OF assms] by (auto simp: neq_Nil_conv)
  have "\<forall>k\<in>set keyword_tokens. CHR ''#'' \<notin> set (tl k)"
    using keyword_token_shape by blast
  then have "keyword_pass (xs @ CHR ''#'' # (k' @ ys))
           = keyword_pass xs @ keyword_pass (CHR ''#'' # (k' @ ys))"
    by (rule keyword_pass_cut)
  then have "keyword_pass (xs @ k @ ys) = keyword_pass xs @ keyword_pass (k @ ys)"
    by (simp add: k)
  then show ?thesis
    by (simp add: keyword_pass_at_keyword[OF assms])
qed

lemma takeWhile_stop: "\<not> P z \<Longrightarrow> takeWhile P (xs @ z # r) = takeWhile P xs"
  by (induction xs) simp_all

lemma dropWhile_stop: "\<not> P z \<Longrightarrow> dropWhile P (xs @ z # r) = dropWhile P xs @ z # r"
  by (induction xs) simp_all

lemma number_pass_cut:
  assumes z: "\<not> is_word z"
  shows "number_pass pw (xs @ z # r) = number_pass pw xs @ z # number_pass False r"
proof (induction "length xs" arbitrary: xs pw rule: less_induct)
  case less
  have zd: "\<not> is_digit z" using z by (simp add: is_word_def)
  show ?case
  proof (cases xs)
    case Nil
    then show ?thesis using z zd by simp
  next
    case (Cons c cs)
    have tw: "takeWhile is_digit (cs @ z # r) = takeWhile is_digit cs"
      using zd by (rule takeWhile_stop)
    have dw: "dropWhile is_digit (cs @ z # r) = dropWhile is_digit cs @ z # r"
      using zd by (rule dropWhile_stop)
    have bnd: "(case dropWhile is_digit cs @ z # r of [] \<Rightarrow> True | d # _ \<Rightarrow> \<not> is_word d)
             = (case dropWhile is_digit cs of [] \<Rightarrow> True | d # _ \<Rightarrow> \<not> is_word d)"
    proof (cases "dropWhile is_digit cs")
      case Nil
      show ?thesis unfolding Nil using z by simp
    next
      case (Cons d ds)
      show ?thesis unfolding Cons by simp
    qed
    have l1: "length (dropWhile is_digit cs) < length xs"
      using Cons by (simp add: less_Suc_eq_le length_dropWhile_le)
    have l2: "length cs < length xs"
      using Cons by simp
    show ?thesis
      using less[OF l1] less[OF l2] tw dw bnd Cons by simp
  qed
qed

lemma string_pass_unfold:
  "string_pass (c # cs) =
     (if prefix ''&quot;'' (c # cs)
         \<and> prefix ''&quot;'' (dropWhile (\<lambda>x. x \<noteq> CHR ''&'') (drop 5 cs))
      then span ''string'' (''&quot;'' @ takeWhile (\<lambda>x. x \<noteq> CHR ''&'') (drop 5 cs) @ ''&quot;'')
           @ string_pass (drop 6 (dropWhile (\<lambda>x. x \<noteq> CHR ''&'') (drop 5 cs)))
      else c # string_pass cs)"
proof (cases "prefix ''&quot;'' (c # cs)")
  case False
  show ?thesis
    by (subst string_pass.simps(2)) (simp only: Let_def False if_False simp_thms)
next
  case p: True
  show ?thesis
  proof (cases "prefix ''&quot;'' (dropWhile (\<lambda>x. x \<noteq> CHR ''&'') (drop 5 cs))")
    case False
    show ?thesis
      by (subst string_pass.simps(2)) (simp only: Let_def p False if_False if_True simp_thms)
  next
    case True
    show ?thesis
      by (subst string_pass.simps(2)) (simp only: Let_def p True if_True simp_thms)
  qed
qed

lemma quot_prefix_cut:
  "xs \<noteq> [] \<Longrightarrow> prefix ''&quot;'' (xs @ CHR ''&'' # r) = prefix ''&quot;'' xs"
proof
  assume "xs \<noteq> []" and "prefix ''&quot;'' (xs @ CHR ''&'' # r)"
  then show "prefix ''&quot;'' xs"
    by (rule prefix_cut[where z = "CHR ''&''" and r = r, rotated 2]) simp_all
next
  assume "prefix ''&quot;'' xs"
  then show "prefix ''&quot;'' (xs @ CHR ''&'' # r)" by (rule prefix_prefix)
qed

lemma quot_prefix_length: "prefix ''&quot;'' xs \<Longrightarrow> 6 \<le> length xs"
  by (drule prefix_length_le) simp

lemma string_pass_cut:
  assumes a: "a \<noteq> CHR ''q''"
  shows "string_pass (xs @ CHR ''&'' # a # r) = string_pass xs @ string_pass (CHR ''&'' # a # r)"
proof (induction "length xs" arbitrary: xs rule: less_induct)
  case less
  let ?t = "CHR ''&'' # a # r"
  let ?na = "\<lambda>x. x \<noteq> CHR ''&''"
  show ?case
  proof (cases xs)
    case Nil
    then show ?thesis by simp
  next
    case (Cons c cs)
    have ih_cs: "string_pass (cs @ ?t) = string_pass cs @ string_pass ?t"
      using less[of cs] Cons by simp
    have p1: "prefix ''&quot;'' (c # cs @ ?t) = prefix ''&quot;'' (c # cs)"
      using quot_prefix_cut[of "c # cs" "a # r"] by simp
    show ?thesis
    proof (cases "prefix ''&quot;'' (c # cs)")
      case False
      have "string_pass (c # cs @ ?t) = c # string_pass (cs @ ?t)"
        by (subst string_pass_unfold) (simp only: p1 False simp_thms if_False)
      moreover have "string_pass (c # cs) = c # string_pass cs"
        by (subst string_pass_unfold) (simp only: False simp_thms if_False)
      ultimately show ?thesis using ih_cs Cons by simp
    next
      case True
      then have "5 \<le> length cs"
        using quot_prefix_length[of "c # cs"] by simp
      then have d5: "drop 5 (cs @ ?t) = drop 5 cs @ ?t"
        by simp
      define d where "d = dropWhile ?na (drop 5 cs)"
      have tw: "takeWhile ?na (drop 5 (cs @ ?t)) = takeWhile ?na (drop 5 cs)"
        unfolding d5 by (rule takeWhile_stop) simp
      have dw: "dropWhile ?na (drop 5 (cs @ ?t)) = d @ ?t"
        unfolding d5 d_def by (rule dropWhile_stop) simp
      have p2: "prefix ''&quot;'' (d @ ?t) = prefix ''&quot;'' d"
      proof (cases "d = []")
        case True
        then show ?thesis using a by simp
      next
        case False
        then show ?thesis by (rule quot_prefix_cut)
      qed
      show ?thesis
      proof (cases "prefix ''&quot;'' d")
        case False
        have "string_pass (c # cs @ ?t) = c # string_pass (cs @ ?t)"
          by (subst string_pass_unfold) (simp only: dw p2 False simp_thms if_False)
        moreover have "string_pass (c # cs) = c # string_pass cs"
          by (subst string_pass_unfold) (simp only: d_def[symmetric] False simp_thms if_False)
        ultimately show ?thesis using ih_cs Cons by simp
      next
        case pd: True
        then have "6 \<le> length d" by (rule quot_prefix_length)
        then have d6: "drop 6 (d @ ?t) = drop 6 d @ ?t"
          by simp
        have "length d \<le> length (drop 5 cs)"
          unfolding d_def by (rule length_dropWhile_le)
        then have "length (drop 6 d) < length xs"
          using Cons by simp
        then have ih_d: "string_pass (drop 6 d @ ?t) = string_pass (drop 6 d) @ string_pass ?t"
          by (rule less)
        have "string_pass (c # cs @ ?t)
              = span ''string'' (''&quot;'' @ takeWhile ?na (drop 5 cs) @ ''&quot;'')
                @ string_pass (drop 6 d @ ?t)"
          by (subst string_pass_unfold) (simp only: p1 True tw dw p2 pd d6 simp_thms if_True)
        moreover have "string_pass (c # cs)
              = span ''string'' (''&quot;'' @ takeWhile ?na (drop 5 cs) @ ''&quot;'')
                @ string_pass (drop 6 d)"
          by (subst string_pass_unfold) (simp only: True d_def[symmetric] pd simp_thms if_True)
        ultimately show ?thesis using ih_d Cons by simp
      qed
    qed
  qed
qed

lemma comment_pass_no_slash:
  "CHR ''/'' \<notin> set w \<Longrightarrow> comment_pass (w @ ys) = w @ comment_pass ys"
  by (induction w) simp_all

lemma comment_pass_keeps:
  assumes nl: "\<forall>x\<in>set w. \<not> line_terminator x" and ns: "CHR ''/'' \<notin> set w"
  shows "\<exists>A B. comment_pass (xs @ w @ ys) = A @ w @ B"
proof (induction "length xs" arbitrary: xs rule: less_induct)
  case less
  let ?nlt = "\<lambda>x. \<not> line_terminator x"
  show ?case
  proof (cases xs)
    case Nil
    have "comment_pass (xs @ w @ ys) = [] @ w @ comment_pass ys"
      using Nil comment_pass_no_slash[OF ns] by simp
    then show ?thesis by blast
  next
    case (Cons c cs)
    show ?thesis
    proof (cases "prefix ''//'' (c # cs @ w @ ys)")
      case False
      obtain A B where "comment_pass (cs @ w @ ys) = A @ w @ B"
        using less[of cs] Cons by auto
      moreover have "comment_pass (c # cs @ w @ ys) = c # comment_pass (cs @ w @ ys)"
        by (subst comment_pass.simps(2)) (simp only: False if_False)
      ultimately have "comment_pass (xs @ w @ ys) = (c # A) @ w @ B"
        using Cons by simp
      then show ?thesis by blast
    next
      case True
      have "comment_pass (c # cs @ w @ ys)
          = span ''comment'' (c # takeWhile ?nlt (cs @ w @ ys))
            @ comment_pass (dropWhile ?nlt (cs @ w @ ys))"
        by (subst comment_pass.simps(2)) (simp only: True if_True)
      then have cp: "comment_pass (xs @ w @ ys)
          = span ''comment'' (c # takeWhile ?nlt (cs @ w @ ys))
            @ comment_pass (dropWhile ?nlt (cs @ w @ ys))"
        using Cons by simp
      show ?thesis
      proof (cases "\<forall>x\<in>set cs. ?nlt x")
        case all: True
        then have "takeWhile ?nlt (cs @ w @ ys) = cs @ w @ takeWhile ?nlt ys"
          using nl by (simp add: takeWhile_append2)
        then have "comment_pass (xs @ w @ ys)
          = (''<span class=\"comment\">'' @ c # cs) @ w
            @ (takeWhile ?nlt ys @ ''</span>'' @ comment_pass (dropWhile ?nlt (cs @ w @ ys)))"
          using cp by (simp add: span_def)
        then show ?thesis by blast
      next
        case False
        then obtain a t b where split: "cs = a @ t # b" and a: "\<forall>x\<in>set a. ?nlt x"
          and t: "\<not> ?nlt t"
          using split_list_first_prop[of cs "\<lambda>x. \<not> ?nlt x"] by auto
        have "dropWhile ?nlt (cs @ w @ ys) = (t # b) @ w @ ys"
          using split a t by (simp add: dropWhile_append2)
        moreover have "length (t # b) < length xs"
          using split Cons by simp
        then obtain A B where "comment_pass ((t # b) @ w @ ys) = A @ w @ B"
          using less by blast
        ultimately have "comment_pass (xs @ w @ ys)
          = (span ''comment'' (c # takeWhile ?nlt (cs @ w @ ys)) @ A) @ w @ B"
          using cp by simp
        then show ?thesis by blast
      qed
    qed
  qed
qed

text \<open>
  C8, as stated, fails: the keyword pattern has no start-of-line anchor, and a \<open>#define\<close> in
  the middle of a line is wrapped in a keyword span.
\<close>

theorem keyword_wrapped_mid_line:
  \<open>highlight ''x #define y'' = ''x <span class="keyword">#define</span> y''
   \<and> escapeHtml ''x #define y'' = ''x #define y''
   \<and> keyword_pass ''x #define y'' = ''x <span class="keyword">#define</span> y''\<close>
  by code_simp

text \<open>
  C8, amended. Every occurrence of one of the four keywords in the text given to the keyword
  pass is wrapped in a keyword span, whatever precedes it on its line; the text before it and
  the text after it are highlighted as they would be on their own.
\<close>

theorem keyword_wrapped_anywhere:
  assumes "k \<in> set keyword_tokens"
  shows "keyword_pass (xs @ k @ ys) = keyword_pass xs @ span ''keyword'' k @ keyword_pass ys"
  using assms by (rule keyword_pass_split)

theorem keyword_wrapped_anywhere_witness:
  \<open>''#endif'' \<in> set keyword_tokens
   \<and> keyword_pass (''int a; '' @ ''#endif'' @ '' b'')
       = ''int a; <span class="keyword">#endif</span> b''\<close>
proof -
  have m: "''#endif'' \<in> set keyword_tokens"
    by (simp add: keyword_tokens_def)
  have a: "keyword_pass ''int a; '' = ''int a; ''" and b: "keyword_pass '' b'' = '' b''"
    by (simp_all add: keyword_tokens_def)
  show ?thesis
    using keyword_wrapped_anywhere[OF m, of "''int a; ''" "'' b''"] m a b
    by (simp add: span_def)
qed

section \<open>Tokenised texts\<close>

declare tokenised.simps(2) [simp del]

lemma token_list_escaped: "token_list escaped_tokens"
  by (simp add: token_list_def escaped_tokens_def span_tags_def)

lemma token_list_highlighted: "token_list highlighted_tokens"
  by (simp add: token_list_def highlighted_tokens_def span_tags_def)

lemma token_shape:
  "token_list T \<Longrightarrow> t \<in> set T \<Longrightarrow> t \<noteq> [] \<and> (hd t = CHR ''<'' \<or> hd t = CHR ''&'')"
  by (auto simp: token_list_def list_all_iff)

lemma token_prefix_free:
  "token_list T \<Longrightarrow> t \<in> set T \<Longrightarrow> t' \<in> set T \<Longrightarrow> prefix t t' \<Longrightarrow> t = t'"
  by (auto simp: token_list_def list_all_iff)

lemma special_heads: "CHR ''<'' \<in> set specials" "CHR ''&'' \<in> set specials"
  by (simp_all add: specials_def)

lemma find_token_plain:
  assumes "token_list T" and "c \<notin> set specials"
  shows "find (\<lambda>t. t \<noteq> [] \<and> prefix t (c # s)) T = None"
proof -
  have "\<not> (t \<noteq> [] \<and> prefix t (c # s))" if "t \<in> set T" for t
  proof
    assume "t \<noteq> [] \<and> prefix t (c # s)"
    then have "hd t = c" by (cases t) auto
    with token_shape[OF assms(1) that] assms(2) special_heads show False by auto
  qed
  then show ?thesis by (simp add: find_None_iff)
qed

lemma find_token_self:
  assumes "token_list T" and "t \<in> set T"
  shows "find (\<lambda>t'. t' \<noteq> [] \<and> prefix t' (t @ s)) T = Some t"
proof -
  have ne: "t \<noteq> []" using token_shape[OF assms] by simp
  then have "\<exists>x. x \<in> set T \<and> x \<noteq> [] \<and> prefix x (t @ s)"
    using assms(2) by auto
  then obtain t' where f: "find (\<lambda>t'. t' \<noteq> [] \<and> prefix t' (t @ s)) T = Some t'"
    by (cases "find (\<lambda>t'. t' \<noteq> [] \<and> prefix t' (t @ s)) T") (auto simp: find_None_iff)
  then have t': "t' \<in> set T" and p: "prefix t' (t @ s)"
    by (auto simp: find_Some_iff)
  from p have "prefix t' t \<or> prefix t t'"
    by (auto simp: prefix_append)
  then have "t' = t"
    using token_prefix_free[OF assms(1) t' assms(2)] token_prefix_free[OF assms(1) assms(2) t']
    by auto
  with f show ?thesis by simp
qed

lemma tokenised_plain:
  "token_list T \<Longrightarrow> c \<notin> set specials \<Longrightarrow> tokenised T (c # s) = tokenised T s"
  by (simp add: find_token_plain tokenised.simps(2))

lemma tokenised_token:
  assumes "token_list T" and "t \<in> set T"
  shows "tokenised T (t @ s) = tokenised T s"
proof -
  obtain c cs where t: "t = c # cs"
    using token_shape[OF assms] by (auto simp: neq_Nil_conv)
  have "find (\<lambda>t'. t' \<noteq> [] \<and> prefix t' (c # cs @ s)) T = Some t"
    using find_token_self[OF assms, of s] t by simp
  moreover have "drop (length t) (c # cs @ s) = s"
    using t by simp
  moreover have "tokenised T (c # cs @ s)
     = (case find (\<lambda>t'. t' \<noteq> [] \<and> prefix t' (c # cs @ s)) T of
        Some t \<Rightarrow> tokenised T (drop (length t) (c # cs @ s))
      | None \<Rightarrow> c \<notin> set specials \<and> tokenised T (cs @ s))"
    by (rule tokenised.simps(2))
  ultimately have "tokenised T (c # cs @ s) = tokenised T s"
    by (simp only: option.case)
  then show ?thesis using t by simp
qed

lemma tokenised_plain_list:
  "token_list T \<Longrightarrow> \<forall>c\<in>set m. c \<notin> set specials \<Longrightarrow> tokenised T (m @ s) = tokenised T s"
  by (induction m) (simp_all add: tokenised_plain)

lemma tokenised_cases:
  assumes "token_list T" and "tokenised T (c # cs)"
  obtains (token) t rest where "t \<in> set T" and "c # cs = t @ rest" and "tokenised T rest"
      and "length rest < length (c # cs)"
    | (plain) "c \<notin> set specials" and "tokenised T cs"
proof (cases "find (\<lambda>t. t \<noteq> [] \<and> prefix t (c # cs)) T")
  case None
  then have "c \<notin> set specials \<and> tokenised T cs"
    using assms(2) by (simp add: tokenised.simps(2))
  then show ?thesis using plain by blast
next
  case (Some t)
  then have t: "t \<in> set T" and ne: "t \<noteq> []" and p: "prefix t (c # cs)"
    by (auto simp: find_Some_iff)
  from p obtain rest where rest: "c # cs = t @ rest"
    by (auto simp: prefix_def)
  have "drop (length t) (c # cs) = rest"
    by (simp only: rest) simp
  moreover have "tokenised T (c # cs)
     = (case find (\<lambda>t. t \<noteq> [] \<and> prefix t (c # cs)) T of
        Some t \<Rightarrow> tokenised T (drop (length t) (c # cs))
      | None \<Rightarrow> c \<notin> set specials \<and> tokenised T cs)"
    by (rule tokenised.simps(2))
  ultimately have "tokenised T rest"
    using assms(2) Some by (simp only: option.case)
  moreover have "length (c # cs) = length t + length rest"
    by (simp only: rest length_append)
  then have "length rest < length (c # cs)"
    using ne by simp
  ultimately show ?thesis using token t rest by blast
qed

lemma tokenised_append:
  assumes T: "token_list T"
  shows "tokenised T a \<Longrightarrow> tokenised T (a @ b) = tokenised T b"
proof (induction "length a" arbitrary: a rule: less_induct)
  case less
  show ?case
  proof (cases a)
    case Nil
    then show ?thesis by simp
  next
    case (Cons c cs)
    with less.prems have "tokenised T (c # cs)" by simp
    with T show ?thesis
    proof (cases rule: tokenised_cases)
      case (token t rest)
      then have "tokenised T (rest @ b) = tokenised T b"
        using less.hyps[of rest] Cons by simp
      moreover have "a @ b = t @ rest @ b"
        using Cons token by simp
      ultimately show ?thesis
        using tokenised_token[OF T token(1)] by simp
    next
      case plain
      then show ?thesis
        using less.hyps[of cs] Cons by (simp add: tokenised_plain[OF T])
    qed
  qed
qed

section \<open>The passes keep the text tokenised\<close>

lemma escaped_token_cases:
  \<open>t \<in> set escaped_tokens \<Longrightarrow>
   t = ''&amp;'' \<or> t = ''&lt;'' \<or> t = ''&gt;'' \<or> t = ''&quot;'' \<or> t = ''&#39;''
   \<or> t = ''<span class="comment">'' \<or> t = ''<span class="keyword">''
   \<or> t = ''<span class="string">'' \<or> t = ''<span class="number">'' \<or> t = ''</span>''\<close>
  by (auto simp: escaped_tokens_def span_tags_def)

lemma span_tokens:
  \<open>''<span class="comment">'' \<in> set escaped_tokens\<close>
  \<open>''<span class="keyword">'' \<in> set escaped_tokens\<close>
  \<open>''<span class="string">'' \<in> set escaped_tokens\<close>
  \<open>''</span>'' \<in> set escaped_tokens\<close>
  \<open>''&quot;'' \<in> set escaped_tokens\<close>
  by (simp_all add: escaped_tokens_def span_tags_def)

lemma token_no_terminator:
  "t \<in> set escaped_tokens \<Longrightarrow> \<forall>x\<in>set t. \<not> line_terminator x"
  by (drule escaped_token_cases) (auto simp: line_terminator_def)

lemma comment_pass_token:
  "t \<in> set escaped_tokens \<Longrightarrow> comment_pass (t @ s) = t @ comment_pass s"
  by (drule escaped_token_cases) (elim disjE; simp)

lemma keyword_pass_token:
  "t \<in> set escaped_tokens \<Longrightarrow> keyword_pass (t @ s) = t @ keyword_pass s"
  by (drule escaped_token_cases) (elim disjE; simp add: keyword_tokens_def)

lemma tokenised_lines:
  assumes "tokenised escaped_tokens s"
  shows "tokenised escaped_tokens (takeWhile (\<lambda>x. \<not> line_terminator x) s)
       \<and> tokenised escaped_tokens (dropWhile (\<lambda>x. \<not> line_terminator x) s)"
  using assms
proof (induction "length s" arbitrary: s rule: less_induct)
  case less
  note T = token_list_escaped
  let ?nlt = "\<lambda>x. \<not> line_terminator x"
  show ?case
  proof (cases s)
    case Nil
    then show ?thesis by simp
  next
    case (Cons c cs)
    with less.prems have "tokenised escaped_tokens (c # cs)" by simp
    with T show ?thesis
    proof (cases rule: tokenised_cases)
      case (token t rest)
      have ih: "tokenised escaped_tokens (takeWhile ?nlt rest)
              \<and> tokenised escaped_tokens (dropWhile ?nlt rest)"
        using less.hyps[of rest] token Cons by simp
      have "takeWhile ?nlt (t @ rest) = t @ takeWhile ?nlt rest"
        using token_no_terminator[OF token(1)] by (simp add: takeWhile_append2)
      moreover have "dropWhile ?nlt (t @ rest) = dropWhile ?nlt rest"
        using token_no_terminator[OF token(1)] by (simp add: dropWhile_append2)
      ultimately show ?thesis
        using ih Cons token(2) tokenised_token[OF T token(1)] by simp
    next
      case plain
      have ih: "tokenised escaped_tokens (takeWhile ?nlt cs)
              \<and> tokenised escaped_tokens (dropWhile ?nlt cs)"
        using less.hyps[of cs] plain Cons by simp
      show ?thesis
      proof (cases "line_terminator c")
        case True
        then show ?thesis using less.prems Cons by simp
      next
        case False
        then show ?thesis using ih Cons plain tokenised_plain[OF T plain(1)] by simp
      qed
    qed
  qed
qed

lemma slash_plain: "CHR ''/'' \<notin> set specials"
  by (simp add: specials_def)

lemma comment_pass_tokenised:
  "tokenised escaped_tokens s \<Longrightarrow> tokenised escaped_tokens (comment_pass s)"
proof (induction "length s" arbitrary: s rule: less_induct)
  case less
  note T = token_list_escaped
  let ?nlt = "\<lambda>x. \<not> line_terminator x"
  show ?case
  proof (cases s)
    case Nil
    then show ?thesis by simp
  next
    case (Cons c cs)
    with less.prems have "tokenised escaped_tokens (c # cs)" by simp
    with T show ?thesis
    proof (cases rule: tokenised_cases)
      case (token t rest)
      have "tokenised escaped_tokens (comment_pass rest)"
        using less.hyps[of rest] token Cons by simp
      then show ?thesis
        using Cons token(2) comment_pass_token[OF token(1)] tokenised_token[OF T token(1)]
        by simp
    next
      case plain
      show ?thesis
      proof (cases "prefix ''//'' (c # cs)")
        case False
        have "comment_pass (c # cs) = c # comment_pass cs"
          by (subst comment_pass.simps(2)) (simp only: False if_False)
        moreover have "tokenised escaped_tokens (comment_pass cs)"
          using less.hyps[of cs] plain Cons by simp
        ultimately show ?thesis
          using Cons tokenised_plain[OF T plain(1)] by simp
      next
        case True
        have cp: "comment_pass (c # cs)
            = ''<span class=\"comment\">'' @ c # takeWhile ?nlt cs @ ''</span>''
              @ comment_pass (dropWhile ?nlt cs)"
          by (subst comment_pass.simps(2)) (simp only: True if_True span_def append_Cons append_Nil append_assoc)
        have tl: "tokenised escaped_tokens (takeWhile ?nlt cs)"
          and dl: "tokenised escaped_tokens (dropWhile ?nlt cs)"
          using tokenised_lines[OF plain(2)] by simp_all
        have "length (dropWhile ?nlt cs) < length s"
          using Cons by (simp add: less_Suc_eq_le length_dropWhile_le)
        then have "tokenised escaped_tokens (comment_pass (dropWhile ?nlt cs))"
          using dl by (rule less.hyps)
        then have "tokenised escaped_tokens (''</span>'' @ comment_pass (dropWhile ?nlt cs))"
          by (simp only: tokenised_token[OF T span_tokens(4)])
        then have "tokenised escaped_tokens
            (takeWhile ?nlt cs @ ''</span>'' @ comment_pass (dropWhile ?nlt cs))"
          by (simp only: tokenised_append[OF T tl])
        then have "tokenised escaped_tokens
            (c # takeWhile ?nlt cs @ ''</span>'' @ comment_pass (dropWhile ?nlt cs))"
          by (simp only: tokenised_plain[OF T plain(1)])
        then have "tokenised escaped_tokens
            (''<span class=\"comment\">'' @ c # takeWhile ?nlt cs @ ''</span>''
              @ comment_pass (dropWhile ?nlt cs))"
          by (simp only: tokenised_token[OF T span_tokens(1)])
        then show ?thesis
          using cp Cons by simp
      qed
    qed
  qed
qed

lemma keyword_plain: "k \<in> set keyword_tokens \<Longrightarrow> \<forall>x\<in>set k. x \<notin> set specials"
  by (auto simp: keyword_tokens_def specials_def)

lemma keyword_pass_tokenised:
  "tokenised escaped_tokens s \<Longrightarrow> tokenised escaped_tokens (keyword_pass s)"
proof (induction "length s" arbitrary: s rule: less_induct)
  case less
  note T = token_list_escaped
  show ?case
  proof (cases s)
    case Nil
    then show ?thesis by simp
  next
    case (Cons c cs)
    with less.prems have "tokenised escaped_tokens (c # cs)" by simp
    with T show ?thesis
    proof (cases rule: tokenised_cases)
      case (token t rest)
      have "tokenised escaped_tokens (keyword_pass rest)"
        using less.hyps[of rest] token Cons by simp
      then show ?thesis
        using Cons token(2) keyword_pass_token[OF token(1)] tokenised_token[OF T token(1)]
        by simp
    next
      case plain
      show ?thesis
      proof (cases "find (\<lambda>k. prefix k (c # cs)) keyword_tokens")
        case None
        have "tokenised escaped_tokens (keyword_pass cs)"
          using less.hyps[of cs] plain Cons by simp
        then show ?thesis
          using None Cons tokenised_plain[OF T plain(1)] by simp
      next
        case (Some k)
        then have p: "prefix k (c # cs)" and k: "k \<in> set keyword_tokens"
          by (auto simp: find_Some_iff)
        then obtain rest where rest: "c # cs = k @ rest" and ne: "k \<noteq> []"
          using keyword_token_shape[of k] by (auto simp: prefix_def)
        have "length (c # cs) = length k + length rest"
          by (simp only: rest length_append)
        then have len: "length rest < length s"
          using Cons ne by simp
        have "tokenised escaped_tokens (k @ rest)"
          using less.prems Cons rest by simp
        then have "tokenised escaped_tokens rest"
          by (simp only: tokenised_plain_list[OF T keyword_plain[OF k]])
        with len have "tokenised escaped_tokens (keyword_pass rest)"
          by (rule less.hyps)
        then have "tokenised escaped_tokens (''</span>'' @ keyword_pass rest)"
          by (simp only: tokenised_token[OF T span_tokens(4)])
        then have "tokenised escaped_tokens (k @ ''</span>'' @ keyword_pass rest)"
          by (simp only: tokenised_plain_list[OF T keyword_plain[OF k]])
        then have "tokenised escaped_tokens
            (''<span class=\"keyword\">'' @ k @ ''</span>'' @ keyword_pass rest)"
          by (simp only: tokenised_token[OF T span_tokens(2)])
        moreover have "drop (length k) (c # cs) = rest"
          by (simp only: rest) simp
        then have "keyword_pass (c # cs)
            = ''<span class=\"keyword\">'' @ k @ ''</span>'' @ keyword_pass rest"
          by (subst keyword_pass.simps(2)) (simp add: Some span_def)
        ultimately show ?thesis using Cons by simp
      qed
    qed
  qed
qed

lemma token_amp_shape:
  "t \<in> set escaped_tokens \<Longrightarrow> (\<exists>t'. t = CHR ''&'' # t') \<or> CHR ''&'' \<notin> set t"
  by (drule escaped_token_cases) auto

lemma tokenised_amp:
  assumes "tokenised escaped_tokens s"
  shows "tokenised escaped_tokens (takeWhile (\<lambda>x. x \<noteq> CHR ''&'') s)
       \<and> tokenised escaped_tokens (dropWhile (\<lambda>x. x \<noteq> CHR ''&'') s)"
  using assms
proof (induction "length s" arbitrary: s rule: less_induct)
  case less
  note T = token_list_escaped
  let ?na = "\<lambda>x. x \<noteq> CHR ''&''"
  show ?case
  proof (cases s)
    case Nil
    then show ?thesis by simp
  next
    case (Cons c cs)
    with less.prems have "tokenised escaped_tokens (c # cs)" by simp
    with T show ?thesis
    proof (cases rule: tokenised_cases)
      case (token t rest)
      have ih: "tokenised escaped_tokens (takeWhile ?na rest)
              \<and> tokenised escaped_tokens (dropWhile ?na rest)"
        using less.hyps[of rest] token Cons by simp
      from token_amp_shape[OF token(1)] show ?thesis
      proof
        assume "\<exists>t'. t = CHR ''&'' # t'"
        then have "c = CHR ''&''" using token(2) by auto
        then show ?thesis using less.prems Cons by simp
      next
        assume "CHR ''&'' \<notin> set t"
        then have na: "\<forall>x\<in>set t. x \<noteq> CHR ''&''"
          by auto
        then have "takeWhile ?na (t @ rest) = t @ takeWhile ?na rest"
          by (simp add: takeWhile_append2)
        moreover have "dropWhile ?na (t @ rest) = dropWhile ?na rest"
          using na by (simp add: dropWhile_append2)
        ultimately show ?thesis
          using ih Cons token(2) tokenised_token[OF T token(1)] by simp
      qed
    next
      case plain
      have ih: "tokenised escaped_tokens (takeWhile ?na cs)
              \<and> tokenised escaped_tokens (dropWhile ?na cs)"
        using less.hyps[of cs] plain Cons by simp
      have "c \<noteq> CHR ''&''" using plain(1) special_heads by auto
      then show ?thesis using ih Cons tokenised_plain[OF T plain(1)] by simp
    qed
  qed
qed

lemma string_pass_no_amp:
  "CHR ''&'' \<notin> set m \<Longrightarrow> string_pass (m @ s) = m @ string_pass s"
  by (induction m) (simp_all add: string_pass_unfold)

lemma string_pass_token:
  "t \<in> set escaped_tokens \<Longrightarrow> t \<noteq> ''&quot;'' \<Longrightarrow> string_pass (t @ s) = t @ string_pass s"
  by (drule escaped_token_cases) (elim disjE; simp add: string_pass_unfold)

lemma string_pass_at_quot:
  "string_pass (''&quot;'' @ rest) =
     (if prefix ''&quot;'' (dropWhile (\<lambda>x. x \<noteq> CHR ''&'') rest)
      then ''<span class=\"string\">'' @ ''&quot;'' @ takeWhile (\<lambda>x. x \<noteq> CHR ''&'') rest
           @ ''&quot;'' @ ''</span>''
           @ string_pass (drop 6 (dropWhile (\<lambda>x. x \<noteq> CHR ''&'') rest))
      else ''&quot;'' @ string_pass rest)"
proof -
  have "string_pass (''quot;'' @ rest) = ''quot;'' @ string_pass rest"
    by (rule string_pass_no_amp) simp
  then show ?thesis
    using string_pass_unfold[of "CHR ''&''" "''quot;'' @ rest"]
    by (simp add: span_def)
qed

lemma string_pass_tokenised:
  "tokenised escaped_tokens s \<Longrightarrow> tokenised escaped_tokens (string_pass s)"
proof (induction "length s" arbitrary: s rule: less_induct)
  case less
  note T = token_list_escaped
  let ?na = "\<lambda>x. x \<noteq> CHR ''&''"
  show ?case
  proof (cases s)
    case Nil
    then show ?thesis by simp
  next
    case (Cons c cs)
    with less.prems have "tokenised escaped_tokens (c # cs)" by simp
    with T show ?thesis
    proof (cases rule: tokenised_cases)
      case (token t rest)
      have ih: "tokenised escaped_tokens (string_pass rest)"
        using less.hyps[of rest] token Cons by simp
      show ?thesis
      proof (cases "t = ''&quot;''")
        case False
        then show ?thesis
          using ih Cons token(2) string_pass_token[OF token(1)] tokenised_token[OF T token(1)]
          by simp
      next
        case q: True
        have s: "s = ''&quot;'' @ rest"
          using Cons token(2) q by simp
        show ?thesis
        proof (cases "prefix ''&quot;'' (dropWhile ?na rest)")
          case False
          then have "string_pass s = ''&quot;'' @ string_pass rest"
            unfolding s by (simp only: string_pass_at_quot if_False)
          then show ?thesis
            using ih by (simp only: tokenised_token[OF T span_tokens(5)])
        next
          case True
          then obtain rest2 where r2: "dropWhile ?na rest = ''&quot;'' @ rest2"
            by (auto simp: prefix_def)
          have tw: "tokenised escaped_tokens (takeWhile ?na rest)"
            and dw: "tokenised escaped_tokens (dropWhile ?na rest)"
            using tokenised_amp[OF token(3)] by simp_all
          have t2: "tokenised escaped_tokens rest2"
            using dw unfolding r2 by (simp only: tokenised_token[OF T span_tokens(5)])
          have d6: "drop 6 (dropWhile ?na rest) = rest2"
            unfolding r2 by simp
          have "length (dropWhile ?na rest) \<le> length rest"
            by (rule length_dropWhile_le)
          then have "length rest2 < length s"
            unfolding r2 s by simp
          then have "tokenised escaped_tokens (string_pass rest2)"
            using t2 by (rule less.hyps)
          then have "tokenised escaped_tokens (''</span>'' @ string_pass rest2)"
            by (simp only: tokenised_token[OF T span_tokens(4)])
          then have "tokenised escaped_tokens (''&quot;'' @ ''</span>'' @ string_pass rest2)"
            by (simp only: tokenised_token[OF T span_tokens(5)])
          then have "tokenised escaped_tokens
              (takeWhile ?na rest @ ''&quot;'' @ ''</span>'' @ string_pass rest2)"
            by (simp only: tokenised_append[OF T tw])
          then have "tokenised escaped_tokens
              (''&quot;'' @ takeWhile ?na rest @ ''&quot;'' @ ''</span>'' @ string_pass rest2)"
            by (simp only: tokenised_token[OF T span_tokens(5)])
          then have "tokenised escaped_tokens
              (''<span class=\"string\">'' @ ''&quot;'' @ takeWhile ?na rest @ ''&quot;''
               @ ''</span>'' @ string_pass rest2)"
            by (simp only: tokenised_token[OF T span_tokens(3)])
          moreover have "string_pass s
              = ''<span class=\"string\">'' @ ''&quot;'' @ takeWhile ?na rest @ ''&quot;''
               @ ''</span>'' @ string_pass rest2"
            unfolding s by (simp only: string_pass_at_quot True if_True d6)
          ultimately show ?thesis by simp
        qed
      qed
    next
      case plain
      have "c \<noteq> CHR ''&''" using plain(1) special_heads by auto
      then have "string_pass (c # cs) = c # string_pass cs"
        by (simp add: string_pass_unfold)
      moreover have "tokenised escaped_tokens (string_pass cs)"
        using less.hyps[of cs] plain Cons by simp
      ultimately show ?thesis
        using Cons tokenised_plain[OF T plain(1)] by simp
    qed
  qed
qed

lemma number_pass_non_digit:
  "\<not> is_digit c \<Longrightarrow> number_pass pw (c # s) = c # number_pass (is_word c) s"
  by simp

lemma number_pass_plain_word:
  "\<forall>x\<in>set m. \<not> is_digit x \<Longrightarrow> m \<noteq> [] \<Longrightarrow> \<not> is_word (last m) \<Longrightarrow>
   number_pass pw (m @ s) = m @ number_pass False s"
proof (induction m arbitrary: pw)
  case Nil
  then show ?case by simp
next
  case (Cons c m)
  show ?case
  proof (cases "m = []")
    case True
    then show ?thesis using Cons.prems by (simp add: number_pass_non_digit)
  next
    case False
    then show ?thesis using Cons by (simp add: number_pass_non_digit)
  qed
qed

lemma char_classes:
  "\<not> is_digit (CHR ''&'')" "\<not> is_word (CHR ''&'')"
  "\<not> is_digit (CHR ''#'')" "\<not> is_word (CHR ''#'')"
  "\<not> is_digit (CHR '';'')" "\<not> is_word (CHR '';'')"
  "\<not> is_digit (CHR ''>'')" "\<not> is_word (CHR ''>'')"
  "is_digit (CHR ''3'')" "is_digit (CHR ''9'')"
  by (simp_all add: is_digit_def is_word_def is_ident_start_def)

lemma number_pass_apostrophe:
  \<open>number_pass pw (''&#39;'' @ s) = ''&#<span class="number">39</span>;'' @ number_pass False s\<close>
  by (simp add: char_classes span_def)

lemma token_digit_free:
  "t \<in> set escaped_tokens \<Longrightarrow> t \<noteq> ''&#39;'' \<Longrightarrow>
   (\<forall>x\<in>set t. \<not> is_digit x) \<and> t \<noteq> [] \<and> \<not> is_word (last t)"
  by (drule escaped_token_cases) (elim disjE; simp add: is_digit_def char_classes)

lemma number_pass_token:
  assumes "t \<in> set escaped_tokens"
  shows "\<exists>t'\<in>set highlighted_tokens. \<forall>pw s. number_pass pw (t @ s) = t' @ number_pass False s"
proof (cases "t = ''&#39;''")
  case True
  have \<open>''&#<span class="number">39</span>;'' \<in> set highlighted_tokens\<close>
    by (simp add: highlighted_tokens_def)
  then show ?thesis
    using True number_pass_apostrophe by blast
next
  case False
  then have t: "t \<in> set highlighted_tokens"
    using assms by (auto simp: escaped_tokens_def highlighted_tokens_def)
  have "\<forall>x\<in>set t. \<not> is_digit x" and "t \<noteq> []" and "\<not> is_word (last t)"
    using token_digit_free[OF assms False] by simp_all
  then have "\<forall>pw s. number_pass pw (t @ s) = t @ number_pass False s"
    using number_pass_plain_word by blast
  with t show ?thesis by blast
qed

lemma digit_plain: "is_digit c \<Longrightarrow> c \<notin> set specials"
  by (auto simp: is_digit_def specials_def)

lemma tokenised_drop_digits:
  assumes "tokenised escaped_tokens s"
  shows "tokenised escaped_tokens (dropWhile is_digit s)"
  using assms
proof (induction s)
  case Nil
  then show ?case by simp
next
  case (Cons c cs)
  show ?case
  proof (cases "is_digit c")
    case False
    then show ?thesis using Cons.prems by simp
  next
    case True
    then have "tokenised escaped_tokens cs"
      using Cons.prems tokenised_plain[OF token_list_escaped digit_plain] by simp
    then show ?thesis using Cons.IH True by simp
  qed
qed

lemma number_span_tokens:
  \<open>''<span class="number">'' \<in> set highlighted_tokens\<close>
  \<open>''</span>'' \<in> set highlighted_tokens\<close>
  by (simp_all add: highlighted_tokens_def span_tags_def)

lemma number_pass_tokenised:
  "tokenised escaped_tokens s \<Longrightarrow> tokenised highlighted_tokens (number_pass pw s)"
proof (induction "length s" arbitrary: s pw rule: less_induct)
  case less
  note T = token_list_escaped and H = token_list_highlighted
  show ?case
  proof (cases s)
    case Nil
    then show ?thesis by simp
  next
    case (Cons c cs)
    with less.prems have "tokenised escaped_tokens (c # cs)" by simp
    with T show ?thesis
    proof (cases rule: tokenised_cases)
      case (token t rest)
      obtain t' where t': "t' \<in> set highlighted_tokens"
        and np: "number_pass pw (t @ rest) = t' @ number_pass False rest"
        using number_pass_token[OF token(1)] by blast
      have "tokenised highlighted_tokens (number_pass False rest)"
        using less.hyps[of rest] token Cons by simp
      then show ?thesis
        using Cons token(2) np tokenised_token[OF H t'] by simp
    next
      case plain
      let ?match = "is_digit c \<and> \<not> pw
         \<and> (case dropWhile is_digit cs of [] \<Rightarrow> True | d # _ \<Rightarrow> \<not> is_word d)"
      show ?thesis
      proof (cases ?match)
        case False
        then have mf: "?match = False" by simp
        have "number_pass pw (c # cs) = c # number_pass (is_word c) cs"
          by (subst number_pass.simps(2)) (simp only: mf if_False)
        moreover have "tokenised highlighted_tokens (number_pass (is_word c) cs)"
          using less.hyps[of cs] plain Cons by simp
        ultimately show ?thesis
          using Cons tokenised_plain[OF H plain(1)] by simp
      next
        case True
        then have mt: "?match = True" by simp
        have "number_pass pw (c # cs)
            = span ''number'' (c # takeWhile is_digit cs)
              @ number_pass True (dropWhile is_digit cs)"
          by (subst number_pass.simps(2)) (simp only: mt if_True)
        then have np: "number_pass pw (c # cs)
            = ''<span class=\"number\">'' @ c # takeWhile is_digit cs @ ''</span>''
              @ number_pass True (dropWhile is_digit cs)"
          by (simp add: span_def)
        have dg: "\<forall>x\<in>set (takeWhile is_digit cs). x \<notin> set specials"
          using digit_plain by (auto dest: set_takeWhileD)
        have "length (dropWhile is_digit cs) < length s"
          using Cons by (simp add: less_Suc_eq_le length_dropWhile_le)
        then have "tokenised highlighted_tokens (number_pass True (dropWhile is_digit cs))"
          using tokenised_drop_digits[OF plain(2)] by (rule less.hyps)
        then have "tokenised highlighted_tokens
            (''</span>'' @ number_pass True (dropWhile is_digit cs))"
          by (simp only: tokenised_token[OF H number_span_tokens(2)])
        then have "tokenised highlighted_tokens
            (takeWhile is_digit cs @ ''</span>'' @ number_pass True (dropWhile is_digit cs))"
          by (simp only: tokenised_plain_list[OF H dg])
        then have "tokenised highlighted_tokens
            (c # takeWhile is_digit cs @ ''</span>'' @ number_pass True (dropWhile is_digit cs))"
          by (simp only: tokenised_plain[OF H plain(1)])
        then have "tokenised highlighted_tokens
            (''<span class=\"number\">'' @ c # takeWhile is_digit cs @ ''</span>''
              @ number_pass True (dropWhile is_digit cs))"
          by (simp only: tokenised_token[OF H number_span_tokens(1)])
        then show ?thesis
          using np Cons by simp
      qed
    qed
  qed
qed

lemma escapeHtml_tokenised: "tokenised escaped_tokens (escapeHtml s)"
proof (induction s)
  case Nil
  show ?case by simp
next
  case (Cons c s)
  note T = token_list_escaped
  have e: \<open>''&amp;'' \<in> set escaped_tokens\<close> \<open>''&lt;'' \<in> set escaped_tokens\<close>
    \<open>''&gt;'' \<in> set escaped_tokens\<close> \<open>''&quot;'' \<in> set escaped_tokens\<close>
    \<open>''&#39;'' \<in> set escaped_tokens\<close>
    by (simp_all add: escaped_tokens_def)
  show ?case
  proof (cases "c \<in> set specials")
    case False
    then have "escapeHtml (c # s) = c # escapeHtml s"
      by (auto simp: escapeHtml_Cons specials_def)
    then show ?thesis
      using Cons False by (simp add: tokenised_plain[OF T])
  next
    case True
    then consider "c = CHR ''&''" | "c = CHR ''<''" | "c = CHR ''>''" | \<open>c = CHR ''"''\<close>
      | "c = CHR 0x27"
      by (auto simp: specials_def)
    then show ?thesis
    proof cases
      case 1
      then have "escapeHtml (c # s) = ''&amp;'' @ escapeHtml s"
        by (simp add: escapeHtml_Cons)
      then show ?thesis using Cons by (simp only: tokenised_token[OF T e(1)])
    next
      case 2
      then have "escapeHtml (c # s) = ''&lt;'' @ escapeHtml s"
        by (simp add: escapeHtml_Cons)
      then show ?thesis using Cons by (simp only: tokenised_token[OF T e(2)])
    next
      case 3
      then have "escapeHtml (c # s) = ''&gt;'' @ escapeHtml s"
        by (simp add: escapeHtml_Cons)
      then show ?thesis using Cons by (simp only: tokenised_token[OF T e(3)])
    next
      case 4
      then have "escapeHtml (c # s) = ''&quot;'' @ escapeHtml s"
        by (simp add: escapeHtml_Cons)
      then show ?thesis using Cons by (simp only: tokenised_token[OF T e(4)])
    next
      case 5
      then have "escapeHtml (c # s) = ''&#39;'' @ escapeHtml s"
        by (simp add: escapeHtml_Cons)
      then show ?thesis using Cons by (simp only: tokenised_token[OF T e(5)])
    qed
  qed
qed

lemma highlight_html_safe: "html_safe (highlight s)"
  unfolding html_safe_def highlight_def
  by (rule number_pass_tokenised, rule string_pass_tokenised, rule keyword_pass_tokenised,
      rule comment_pass_tokenised, rule escapeHtml_tokenised)

section \<open>Safety of the highlighted text\<close>

lemma highlighted_token_cases:
  \<open>t \<in> set highlighted_tokens \<Longrightarrow>
   t = ''&amp;'' \<or> t = ''&lt;'' \<or> t = ''&gt;'' \<or> t = ''&quot;''
   \<or> t = ''&#<span class="number">39</span>;''
   \<or> t = ''<span class="comment">'' \<or> t = ''<span class="keyword">''
   \<or> t = ''<span class="string">'' \<or> t = ''<span class="number">'' \<or> t = ''</span>''\<close>
  by (auto simp: highlighted_tokens_def span_tags_def)

lemma tokenised_excludes:
  assumes T: "token_list T" and w: "w \<noteq> []" "hd w \<in> set specials"
    and tok: "\<And>t rest. t \<in> set T \<Longrightarrow> sublist w (t @ rest) \<Longrightarrow> sublist w rest"
  shows "tokenised T s \<Longrightarrow> \<not> sublist w s"
proof (induction "length s" arbitrary: s rule: less_induct)
  case less
  show ?case
  proof (cases s)
    case Nil
    then show ?thesis using w by simp
  next
    case (Cons c cs)
    with less.prems have "tokenised T (c # cs)" by simp
    with T show ?thesis
    proof (cases rule: tokenised_cases)
      case (token t rest)
      have "\<not> sublist w rest"
        using less.hyps[of rest] token Cons by simp
      then have "\<not> sublist w (t @ rest)"
        using tok[OF token(1)] by blast
      then show ?thesis using Cons token(2) by simp
    next
      case plain
      have "\<not> sublist w cs"
        using less.hyps[of cs] plain Cons by simp
      moreover have "\<not> prefix w (c # cs)"
      proof
        assume "prefix w (c # cs)"
        then have "hd w = c" using w(1) by (cases w) auto
        with w(2) plain(1) show False by simp
      qed
      ultimately show ?thesis
        using Cons by (simp add: sublist_Cons_right)
    qed
  qed
qed

lemma script_not_in_token:
  "t \<in> set highlighted_tokens \<Longrightarrow> sublist ''<script>'' (t @ rest) \<Longrightarrow> sublist ''<script>'' rest"
  by (drule highlighted_token_cases) (elim disjE; simp add: sublist_Cons_right)

lemma entity_not_in_token:
  "t \<in> set highlighted_tokens \<Longrightarrow> sublist ''&#39;'' (t @ rest) \<Longrightarrow> sublist ''&#39;'' rest"
  by (drule highlighted_token_cases) (elim disjE; simp add: sublist_Cons_right)

lemma html_safe_no_script: "html_safe s \<Longrightarrow> \<not> sublist ''<script>'' s"
  unfolding html_safe_def
  by (rule tokenised_excludes[OF token_list_highlighted _ _ script_not_in_token])
    (simp_all add: specials_def)

lemma html_safe_no_apostrophe_entity: "html_safe s \<Longrightarrow> \<not> sublist ''&#39;'' s"
  unfolding html_safe_def
  by (rule tokenised_excludes[OF token_list_highlighted _ _ entity_not_in_token])
    (simp_all add: specials_def)

lemma sublist_escapeHtml: "sublist u s \<Longrightarrow> sublist (escapeHtml u) (escapeHtml s)"
proof -
  assume "sublist u s"
  then obtain ps ss where "s = ps @ u @ ss"
    by (auto simp: sublist_def)
  then have "escapeHtml s = escapeHtml ps @ escapeHtml u @ escapeHtml ss"
    by (simp add: escapeHtml_append)
  then show ?thesis
    unfolding sublist_def by blast
qed

lemma amp_not_in_keyword: "\<forall>k\<in>set keyword_tokens. CHR ''&'' \<notin> set (tl k)"
  by (simp add: keyword_tokens_def)

lemma passes_keep:
  assumes sub: "sublist w s"
    and w: "w = CHR ''&'' # a # w'" and a: "a \<noteq> CHR ''q''"
    and nl: "\<forall>x\<in>set w. \<not> line_terminator x" and ns: "CHR ''/'' \<notin> set w"
    and kw: "\<And>ys. keyword_pass (w @ ys) = w @ keyword_pass ys"
    and st: "\<And>ys. string_pass (w @ ys) = w @ string_pass ys"
    and nu: "\<And>pw ys. number_pass pw (w @ ys) = w2 @ number_pass False ys"
  shows "sublist w2 (number_pass False (string_pass (keyword_pass (comment_pass s))))"
proof -
  from sub obtain xs ys where "s = xs @ w @ ys"
    by (auto simp: sublist_def)
  then obtain A1 B1 where 1: "comment_pass s = A1 @ w @ B1"
    using comment_pass_keeps[OF nl ns] by blast
  have "keyword_pass (A1 @ CHR ''&'' # (a # w' @ B1))
      = keyword_pass A1 @ keyword_pass (CHR ''&'' # (a # w' @ B1))"
    using amp_not_in_keyword by (rule keyword_pass_cut)
  then have 2: "keyword_pass (comment_pass s) = keyword_pass A1 @ w @ keyword_pass B1"
    using 1 kw[of B1] by (simp add: w)
  have "string_pass (keyword_pass A1 @ CHR ''&'' # a # (w' @ keyword_pass B1))
      = string_pass (keyword_pass A1) @ string_pass (CHR ''&'' # a # (w' @ keyword_pass B1))"
    using a by (rule string_pass_cut)
  then have 3: "string_pass (keyword_pass (comment_pass s))
      = string_pass (keyword_pass A1) @ w @ string_pass (keyword_pass B1)"
    using 2 st[of "keyword_pass B1"] by (simp add: w)
  let ?A = "string_pass (keyword_pass A1)" and ?B = "string_pass (keyword_pass B1)"
  have "number_pass False (?A @ CHR ''&'' # (a # w' @ ?B))
      = number_pass False ?A @ CHR ''&'' # number_pass False (a # w' @ ?B)"
    by (rule number_pass_cut) (simp add: char_classes)
  moreover have "CHR ''&'' # number_pass False (a # w' @ ?B) = number_pass False (w @ ?B)"
    by (simp add: w number_pass_non_digit char_classes)
  ultimately have "number_pass False (string_pass (keyword_pass (comment_pass s)))
      = number_pass False ?A @ w2 @ number_pass False ?B"
    using 3 nu[of False ?B] by (simp add: w)
  then show ?thesis
    unfolding sublist_def by blast
qed

lemma passes_keep_script:
  "sublist ''&lt;script&gt;'' s \<Longrightarrow>
   sublist ''&lt;script&gt;'' (number_pass False (string_pass (keyword_pass (comment_pass s))))"
  by (rule passes_keep[where w = "''&lt;script&gt;''" and a = "CHR ''l''"
        and w' = "''t;script&gt;''"])
    (simp_all add: line_terminator_def keyword_tokens_def string_pass_unfold is_digit_def
      char_classes)

lemma passes_split_apostrophe:
  \<open>sublist ''&#39;'' s \<Longrightarrow>
   sublist ''&#<span class="number">39</span>;''
     (number_pass False (string_pass (keyword_pass (comment_pass s))))\<close>
  by (rule passes_keep[where w = "''&#39;''" and a = "CHR ''#''" and w' = "''39;''"])
    (simp_all add: line_terminator_def keyword_tokens_def string_pass_unfold is_digit_def
      char_classes span_def)

lemma passes_keep_double_escaped:
  assumes "sublist (''&amp;'' @ e) s" and "e \<in> set [''amp;'', ''lt;'', ''gt;'', ''quot;'']"
  shows "sublist (''&amp;'' @ e) (number_pass False (string_pass (keyword_pass (comment_pass s))))"
proof -
  from assms(2) consider "e = ''amp;''" | "e = ''lt;''" | "e = ''gt;''" | "e = ''quot;''"
    by auto
  then show ?thesis
  proof cases
    case 1
    show ?thesis
      using assms(1) unfolding 1
      by (intro passes_keep[where w = "''&amp;amp;''" and a = "CHR ''a''"
            and w' = "''mp;amp;''"])
        (simp_all add: line_terminator_def keyword_tokens_def string_pass_unfold is_digit_def
          char_classes)
  next
    case 2
    show ?thesis
      using assms(1) unfolding 2
      by (intro passes_keep[where w = "''&amp;lt;''" and a = "CHR ''a''"
            and w' = "''mp;lt;''"])
        (simp_all add: line_terminator_def keyword_tokens_def string_pass_unfold is_digit_def
          char_classes)
  next
    case 3
    show ?thesis
      using assms(1) unfolding 3
      by (intro passes_keep[where w = "''&amp;gt;''" and a = "CHR ''a''"
            and w' = "''mp;gt;''"])
        (simp_all add: line_terminator_def keyword_tokens_def string_pass_unfold is_digit_def
          char_classes)
  next
    case 4
    show ?thesis
      using assms(1) unfolding 4
      by (intro passes_keep[where w = "''&amp;quot;''" and a = "CHR ''a''"
            and w' = "''mp;quot;''"])
        (simp_all add: line_terminator_def keyword_tokens_def string_pass_unfold is_digit_def
          char_classes)
  qed
qed

lemma passes_split_double_escaped_apostrophe:
  \<open>sublist ''&amp;#39;'' s \<Longrightarrow>
   sublist ''&amp;#<span class="number">39</span>;''
     (number_pass False (string_pass (keyword_pass (comment_pass s))))\<close>
  by (rule passes_keep[where w = "''&amp;#39;''" and a = "CHR ''a''" and w' = "''mp;#39;''"])
    (simp_all add: line_terminator_def keyword_tokens_def string_pass_unfold is_digit_def
      char_classes span_def)

lemma member_sublist: "c \<in> set s \<Longrightarrow> sublist [c] s"
  by (auto simp: sublist_def dest: split_list)

lemma sublist_join_lines: "l \<in> set ls \<Longrightarrow> sublist l (join_lines ls)"
proof (induction ls rule: join_lines.induct)
  case 1
  then show ?case by simp
next
  case (2 l')
  then show ?case by simp
next
  case (3 l' m ls)
  show ?case
  proof (cases "l = l'")
    case True
    then show ?thesis by simp
  next
    case False
    then have "sublist l (join_lines (m # ls))"
      using 3 by simp
    then obtain a b where "join_lines (m # ls) = a @ l @ b"
      by (auto simp: sublist_def)
    then have "join_lines (l' # m # ls) = (l' @ CHR 0x0A # a) @ l @ b"
      by simp
    then show ?thesis
      unfolding sublist_def by blast
  qed
qed

text \<open>
  C3. For every input the output of the highlighter, and so the return value of
  \<open>generateCHeader\<close>, is a sequence of span tags, entities and characters other than
  \<open><\<close>, \<open>>\<close>, \<open>&\<close>, the double quote and the apostrophe: no special character of the input
  survives unescaped. The output never contains \<open><script>\<close>, and where the input contains it
  the output contains the escaped form \<open>&lt;script&gt;\<close>.
\<close>

theorem highlight_is_html_safe:
  "html_safe (highlight s)
   \<and> html_safe (generateCHeader p v)
   \<and> \<not> sublist ''<script>'' (highlight s)
   \<and> (sublist ''<script>'' s \<longrightarrow> sublist ''&lt;script&gt;'' (highlight s))"
proof -
  have a: "html_safe (highlight s)" for s
    by (rule highlight_html_safe)
  have b: "\<not> sublist ''<script>'' (highlight s)"
    using a by (rule html_safe_no_script)
  have c: "sublist ''&lt;script&gt;'' (highlight s)" if "sublist ''<script>'' s"
  proof -
    have "sublist (escapeHtml ''<script>'') (escapeHtml s)"
      using that by (rule sublist_escapeHtml)
    then have "sublist ''&lt;script&gt;'' (escapeHtml s)"
      by (simp add: escapeHtml_def)
    then show ?thesis
      unfolding highlight_def by (rule passes_keep_script)
  qed
  show ?thesis
    using a b c by (simp add: generateCHeader_def)
qed

theorem highlight_is_html_safe_witness:
  \<open>sublist ''<script>'' ''a "<script>" b''
   \<and> sublist ''&lt;script&gt;'' (highlight ''a "<script>" b'')
   \<and> \<not> sublist ''<script>'' (highlight ''a "<script>" b'')
   \<and> html_safe (highlight ''a "<script>" b'')\<close>
proof -
  have h: \<open>sublist ''<script>'' ''a "<script>" b''\<close>
    by (simp add: sublist_Cons_right)
  show ?thesis
    using highlight_is_html_safe[of \<open>''a "<script>" b''\<close>] h by blast
qed

text \<open>
  C10. For every input with an apostrophe the escaped text contains \<open>&#39;\<close>, the output of
  the highlighter contains the entity with a number span around its digits, and the output
  contains no intact \<open>&#39;\<close> at all.
\<close>

theorem apostrophe_entity_is_split:
  assumes "CHR 0x27 \<in> set s"
  shows \<open>sublist ''&#39;'' (escapeHtml s)
    \<and> sublist ''&#<span class="number">39</span>;'' (highlight s)
    \<and> \<not> sublist ''&#39;'' (highlight s)\<close>
proof -
  have "sublist [CHR 0x27] s"
    using assms by (rule member_sublist)
  then have "sublist (escapeHtml [CHR 0x27]) (escapeHtml s)"
    by (rule sublist_escapeHtml)
  then have a: "sublist ''&#39;'' (escapeHtml s)"
    by (simp add: escapeHtml_def)
  then have b: \<open>sublist ''&#<span class="number">39</span>;'' (highlight s)\<close>
    unfolding highlight_def by (rule passes_split_apostrophe)
  have c: "\<not> sublist ''&#39;'' (highlight s)"
    using highlight_html_safe by (rule html_safe_no_apostrophe_entity)
  show ?thesis using a b c by blast
qed

theorem apostrophe_entity_is_split_witness:
  \<open>CHR 0x27 \<in> set (''it'' @ [CHR 0x27] @ ''s'')
   \<and> sublist ''&#<span class="number">39</span>;'' (highlight (''it'' @ [CHR 0x27] @ ''s''))
   \<and> \<not> sublist ''&#39;'' (highlight (''it'' @ [CHR 0x27] @ ''s''))\<close>
proof -
  have h: "CHR 0x27 \<in> set (''it'' @ [CHR 0x27] @ ''s'')"
    by simp
  show ?thesis
    using apostrophe_entity_is_split[OF h] h by blast
qed

lemma variant_line_in_header:
  "(''// Variant: '' @ escapeHtml (variant_or_default p)) \<in> set (lines (header_gen p v))"
  by (simp add: header_gen_sections preamble_def)

lemma double_escaped_in_text:
  assumes "c \<in> set (variantName p)"
  shows "sublist (escapeHtml (escapeHtml [c])) (escapeHtml (raw_header p v))"
proof -
  have n: "variant_or_default p = variantName p"
    using assms by (auto simp: variant_or_default_def)
  have "sublist [c] (variantName p)"
    using assms by (rule member_sublist)
  then have "sublist (escapeHtml [c]) (escapeHtml (variantName p))"
    by (rule sublist_escapeHtml)
  then obtain a b where "escapeHtml (variantName p) = a @ escapeHtml [c] @ b"
    by (auto simp: sublist_def)
  then have "''// Variant: '' @ escapeHtml (variantName p)
      = (''// Variant: '' @ a) @ escapeHtml [c] @ b"
    by simp
  then have "sublist (escapeHtml [c]) (''// Variant: '' @ escapeHtml (variantName p))"
    unfolding sublist_def by blast
  moreover have "sublist (''// Variant: '' @ escapeHtml (variantName p)) (raw_header p v)"
    unfolding raw_header_def using variant_line_in_header[of p v] n
    by (intro sublist_join_lines) simp
  ultimately have "sublist (escapeHtml [c]) (raw_header p v)"
    by (rule sublist_order.order.trans)
  then show ?thesis
    by (rule sublist_escapeHtml)
qed

text \<open>
  C9. The variant name is escaped when the comment line is built and again with the whole text:
  for a special character \<open>c\<close> of the variant name the text given to the highlighting passes
  contains \<open>escapeHtml (escapeHtml [c])\<close>, and the generated text, which is also the content
  of the download, contains \<open>&amp;amp;\<close> for \<open>&\<close>, \<open>&amp;lt;\<close> for \<open><\<close>,
  \<open>&amp;gt;\<close> for \<open>>\<close>, \<open>&amp;quot;\<close> for the double quote and, for the apostrophe,
  \<open>&amp;#39;\<close> with a number span around the digits.
\<close>

theorem variant_name_is_escaped_twice:
  assumes "c \<in> set (variantName p)" and "c \<in> set specials"
  shows \<open>sublist (''// Variant: '' @ escapeHtml (variantName p)) (raw_header p v)
    \<and> sublist (escapeHtml (escapeHtml [c])) (escapeHtml (raw_header p v))
    \<and> generateCHeader p v
        = number_pass False (string_pass (keyword_pass (comment_pass
            (escapeHtml (raw_header p v)))))
    \<and> sublist (if c = CHR ''&'' then ''&amp;amp;''
                else if c = CHR ''<'' then ''&amp;lt;''
                else if c = CHR ''>'' then ''&amp;gt;''
                else if c = CHR ''"'' then ''&amp;quot;''
                else ''&amp;#<span class="number">39</span>;'')
         (generateCHeader p v)
    \<and> content (exportCHeader p v) = generateCHeader p v\<close>
proof -
  have n: "variant_or_default p = variantName p"
    using assms(1) by (auto simp: variant_or_default_def)
  have a: "sublist (''// Variant: '' @ escapeHtml (variantName p)) (raw_header p v)"
    unfolding raw_header_def using variant_line_in_header[of p v] n
    by (intro sublist_join_lines) simp
  have b: "sublist (escapeHtml (escapeHtml [c])) (escapeHtml (raw_header p v))"
    using assms(1) by (rule double_escaped_in_text)
  have g: "generateCHeader p v
        = number_pass False (string_pass (keyword_pass (comment_pass
            (escapeHtml (raw_header p v)))))"
    by (simp add: generateCHeader_def highlight_def)
  from assms(2) consider "c = CHR ''&''" | "c = CHR ''<''" | "c = CHR ''>''"
    | \<open>c = CHR ''"''\<close> | "c = CHR 0x27"
    by (auto simp: specials_def)
  then have d: \<open>sublist (if c = CHR ''&'' then ''&amp;amp;''
                else if c = CHR ''<'' then ''&amp;lt;''
                else if c = CHR ''>'' then ''&amp;gt;''
                else if c = CHR ''"'' then ''&amp;quot;''
                else ''&amp;#<span class="number">39</span>;'')
         (generateCHeader p v)\<close>
  proof cases
    case 1
    then have "sublist (''&amp;'' @ ''amp;'') (escapeHtml (raw_header p v))"
      using b by (simp add: escapeHtml_def)
    then have "sublist (''&amp;'' @ ''amp;'') (generateCHeader p v)"
      unfolding g by (rule passes_keep_double_escaped) simp
    then show ?thesis using 1 by simp
  next
    case 2
    then have "sublist (''&amp;'' @ ''lt;'') (escapeHtml (raw_header p v))"
      using b by (simp add: escapeHtml_def)
    then have "sublist (''&amp;'' @ ''lt;'') (generateCHeader p v)"
      unfolding g by (rule passes_keep_double_escaped) simp
    then show ?thesis using 2 by simp
  next
    case 3
    then have "sublist (''&amp;'' @ ''gt;'') (escapeHtml (raw_header p v))"
      using b by (simp add: escapeHtml_def)
    then have "sublist (''&amp;'' @ ''gt;'') (generateCHeader p v)"
      unfolding g by (rule passes_keep_double_escaped) simp
    then show ?thesis using 3 by simp
  next
    case 4
    then have "sublist (''&amp;'' @ ''quot;'') (escapeHtml (raw_header p v))"
      using b by (simp add: escapeHtml_def)
    then have "sublist (''&amp;'' @ ''quot;'') (generateCHeader p v)"
      unfolding g by (rule passes_keep_double_escaped) simp
    then show ?thesis using 4 by simp
  next
    case 5
    then have "sublist ''&amp;#39;'' (escapeHtml (raw_header p v))"
      using b by (simp add: escapeHtml_def)
    then have \<open>sublist ''&amp;#<span class="number">39</span>;'' (generateCHeader p v)\<close>
      unfolding g by (rule passes_split_double_escaped_apostrophe)
    then show ?thesis using 5 by simp
  qed
  have e: "content (exportCHeader p v) = generateCHeader p v"
    by (simp add: exportCHeader_def)
  show ?thesis using a b g d e by blast
qed

theorem variant_name_is_escaped_twice_witness:
  \<open>CHR ''&'' \<in> set (variantName \<lparr>schema = [], variantName = ''a&b''\<rparr>)
   \<and> CHR ''&'' \<in> set specials
   \<and> sublist ''&amp;amp;'' (generateCHeader \<lparr>schema = [], variantName = ''a&b''\<rparr> [])
   \<and> sublist ''&amp;amp;'' (content (exportCHeader \<lparr>schema = [], variantName = ''a&b''\<rparr> []))\<close>
proof -
  let ?p = "\<lparr>schema = [], variantName = ''a&b''\<rparr>"
  have 1: "CHR ''&'' \<in> set (variantName ?p)" by simp
  have 2: "CHR ''&'' \<in> set specials" by (simp add: specials_def)
  note t = variant_name_is_escaped_twice[OF 1 2, of "[]"]
  note d0 = t[THEN conjunct2, THEN conjunct2, THEN conjunct2, THEN conjunct1]
  from d0 have d: "sublist ''&amp;amp;'' (generateCHeader ?p [])"
    by simp
  note e = t[THEN conjunct2, THEN conjunct2, THEN conjunct2, THEN conjunct2]
  show ?thesis
    using 1 2 d e by simp
qed

end
